theory Spec2Isabelle
  imports Complex_Main "HOL-Library.Word" "HOL-Library.Multiset"
begin

unbundle bit_operations_syntax

section \<open>Message outboxes (robot.js, radio talk and castle talk)\<close>

text \<open>
  The robot keeps, per channel, a pending priority, a pending multi-part message and (radio
  only) a squared radius. The fields are \<^verbatim>\<open>_util_rd_prio\<close>, \<^verbatim>\<open>_util_rd_msg\<close>,
  \<^verbatim>\<open>_util_rd_radiusSq\<close>, \<^verbatim>\<open>_util_ct_prio\<close> and \<^verbatim>\<open>_util_ct_msg\<close>; a field that is
  \<^verbatim>\<open>null\<close> or was never assigned is \<open>None\<close>. The host calls \<^verbatim>\<open>this.signal\<close> and
  \<^verbatim>\<open>this.castleTalk\<close> are recorded in two traces.
\<close>

record outbox =
  util_rd_prio :: "int option"
  util_rd_msg :: "int list option"
  util_rd_radiusSq :: "int option"
  util_ct_prio :: "int option"
  util_ct_msg :: "int list option"
  signal_calls :: "(int \<times> int option) list"
  castleTalk_calls :: "int list"

text \<open>The argument \<^verbatim>\<open>msg\<close> is a number or an array of numbers.\<close>

datatype payload = Single int | Parts "int list"

text \<open>\<^verbatim>\<open>if (!Array.isArray(msg)) msg = [msg];\<close>\<close>

fun promote :: "payload \<Rightarrow> int list" where
  "promote (Single m) = [m]"
| "promote (Parts ms) = ms"

text \<open>\<^verbatim>\<open>prio != null && prio >= priority\<close>\<close>

fun blocks :: "int option \<Rightarrow> int \<Rightarrow> bool" where
  "blocks None priority = False"
| "blocks (Some p) priority = (p \<ge> priority)"

definition radioSetEventMessage ::
  "int \<Rightarrow> payload \<Rightarrow> int option \<Rightarrow> outbox \<Rightarrow> bool \<times> outbox" where
  "radioSetEventMessage priority msg radiusSq s =
     (if blocks (util_rd_prio s) priority then (False, s)
      else (True, s\<lparr>util_rd_prio := Some priority,
                     util_rd_msg := Some (promote msg),
                     util_rd_radiusSq := radiusSq\<rparr>))"

definition radioSendMessage :: "outbox \<Rightarrow> outbox" where
  "radioSendMessage s =
     (case util_rd_msg s of
        Some (m # rest) \<Rightarrow>
          (let s1 = s\<lparr>signal_calls := signal_calls s @ [(m, util_rd_radiusSq s)]\<rparr>;
               s2 = s1\<lparr>util_rd_msg := Some rest\<rparr>
           in if length rest = 0 then s2\<lparr>util_rd_prio := None\<rparr> else s2)
      | _ \<Rightarrow> s)"

definition castleTalkSetEventMessage :: "int \<Rightarrow> payload \<Rightarrow> outbox \<Rightarrow> bool \<times> outbox" where
  "castleTalkSetEventMessage priority msg s =
     (if blocks (util_ct_prio s) priority then (False, s)
      else (True, s\<lparr>util_ct_prio := Some priority,
                     util_ct_msg := Some (promote msg)\<rparr>))"

definition castleTalkSendMessage :: "outbox \<Rightarrow> outbox" where
  "castleTalkSendMessage s =
     (case util_ct_msg s of
        Some (m # rest) \<Rightarrow>
          (let s1 = s\<lparr>castleTalk_calls := castleTalk_calls s @ [m]\<rparr>;
               s2 = s1\<lparr>util_ct_msg := Some rest\<rparr>
           in if length rest = 0 then s2\<lparr>util_ct_prio := None\<rparr> else s2)
      | _ \<Rightarrow> s)"

text \<open>A freshly constructed robot: no field assigned, nothing sent.\<close>

definition new_outbox :: outbox where
  "new_outbox = \<lparr>util_rd_prio = None, util_rd_msg = None, util_rd_radiusSq = None,
                  util_ct_prio = None, util_ct_msg = None,
                  signal_calls = [], castleTalk_calls = []\<rparr>"


section \<open>WorldKnowledge (WorldKnowledge.js)\<close>

text \<open>
  A bot record is a JavaScript object with the fields \<^verbatim>\<open>id\<close>, \<^verbatim>\<open>team\<close>, \<^verbatim>\<open>unit\<close> and,
  once they have been assigned, \<^verbatim>\<open>x\<close>, \<^verbatim>\<open>y\<close>, \<^verbatim>\<open>posUpdateTurn\<close> and \<^verbatim>\<open>damage\<close>
  (an absent or \<^verbatim>\<open>null\<close> field is \<open>None\<close>).
\<close>

record bot =
  bot_id :: int
  bot_team :: int
  bot_unit :: int
  bot_x :: "int option"
  bot_y :: "int option"
  bot_posUpdateTurn :: "int option"
  bot_damage :: "int option"

text \<open>
  The messages handed to \<^verbatim>\<open>this.log\<close>, one constructor per message text, carrying the values
  that the text interpolates.
\<close>

datatype log_msg =
    ChangeTeam int int int
  | ChangeUnitType int int int
  | ChangeBaseInformation
  | UpdateStaticStructure int "int option \<times> int option" "int \<times> int"
  | CannotRecover

datatype wk_error = NoTurnSpecified | BotNotKnown

text \<open>
  The same bot object is reachable from the dictionary \<^verbatim>\<open>_util_known_bots\<close> and from the array
  \<^verbatim>\<open>_util_known_structures\<close>, and it is mutated in place, so objects live in a store: \<open>objects\<close>
  maps a reference to the object's current fields and \<open>next_ref\<close> is the next unused reference.
  \<open>has_logger\<close> says whether a logger was passed to the constructor; \<open>logged\<close>,
  \<open>initial_cb_calls\<close> and \<open>terminate_cb_calls\<close> are the traces of the logger and of the two
  registered callbacks (each entry is the record passed to the callback).
\<close>

record WorldKnowledge =
  objects :: "nat \<Rightarrow> bot"
  next_ref :: nat
  util_known_bots :: "int \<rightharpoonup> nat"
  util_known_structures :: "nat list"
  has_logger :: bool
  logged :: "log_msg list"
  initial_cb_calls :: "bot list"
  terminate_cb_calls :: "bot list"

definition new_bot :: "int \<Rightarrow> int \<Rightarrow> int \<Rightarrow> bot" where
  "new_bot i tm un = \<lparr>bot_id = i, bot_team = tm, bot_unit = un, bot_x = None, bot_y = None,
                       bot_posUpdateTurn = None, bot_damage = None\<rparr>"

definition new_WorldKnowledge :: "bool \<Rightarrow> WorldKnowledge" where
  "new_WorldKnowledge logger =
     \<lparr>objects = (\<lambda>_. new_bot 0 0 0), next_ref = 0, util_known_bots = Map.empty,
      util_known_structures = [], has_logger = logger, logged = [],
      initial_cb_calls = [], terminate_cb_calls = []\<rparr>"

text \<open>\<^verbatim>\<open>log(msg) { if (this._logger) this._logger(msg); }\<close>\<close>

definition wk_log :: "log_msg \<Rightarrow> WorldKnowledge \<Rightarrow> WorldKnowledge" where
  "wk_log msg s = (if has_logger s then s\<lparr>logged := logged s @ [msg]\<rparr> else s)"

definition findById :: "int \<Rightarrow> WorldKnowledge \<Rightarrow> bot option" where
  "findById i s = map_option (objects s) (util_known_bots s i)"

text \<open>
  The tail of \<^verbatim>\<open>initialSighting\<close>: a fresh object is stored under the id and handed to the
  initial-sighting callback.
\<close>

definition install_bot :: "int \<Rightarrow> int \<Rightarrow> int \<Rightarrow> WorldKnowledge \<Rightarrow> WorldKnowledge" where
  "install_bot i tm un s =
     (let r = next_ref s; b = new_bot i tm un
      in s\<lparr>objects := (objects s)(r := b), next_ref := Suc r,
            util_known_bots := (util_known_bots s)(i \<mapsto> r),
            initial_cb_calls := initial_cb_calls s @ [b]\<rparr>)"

definition initialSighting ::
  "int \<Rightarrow> int \<Rightarrow> int \<Rightarrow> bool \<Rightarrow> WorldKnowledge \<Rightarrow> WorldKnowledge" where
  "initialSighting i tm un trueVision s =
     (case util_known_bots s i of
        None \<Rightarrow> install_bot i tm un s
      | Some r \<Rightarrow>
          (let b = objects s r;
               (error, s1) =
                  (if bot_team b \<noteq> tm then (True, wk_log (ChangeTeam i (bot_team b) tm) s)
                   else if bot_unit b \<noteq> un then (True, wk_log (ChangeUnitType i (bot_unit b) un) s)
                   else (False, s))
           in if \<not> error then s1
              else if \<not> trueVision then s1
              else install_bot i tm un (wk_log ChangeBaseInformation s1)))"

definition applyDamage :: "int \<Rightarrow> int \<Rightarrow> WorldKnowledge \<Rightarrow> wk_error + WorldKnowledge" where
  "applyDamage i dmg s =
     (case util_known_bots s i of
        None \<Rightarrow> Inl BotNotKnown
      | Some r \<Rightarrow>
          (let b = objects s r;
               b' = (case bot_damage b of
                       Some d \<Rightarrow> b\<lparr>bot_damage := Some (d + dmg)\<rparr>
                     | None \<Rightarrow> b\<lparr>bot_damage := Some dmg\<rparr>)
           in Inr (s\<lparr>objects := (objects s)(r := b')\<rparr>)))"

text \<open>\<^verbatim>\<open>bot.posUpdateTurn != null && bot.posUpdateTurn >= turn\<close>\<close>

fun outdated :: "int option \<Rightarrow> int \<Rightarrow> bool" where
  "outdated None turn = False"
| "outdated (Some t0) turn = (t0 \<ge> turn)"

text \<open>The three assignments at the end of \<^verbatim>\<open>updatePosition\<close>, on the object itself.\<close>

definition set_position :: "nat \<Rightarrow> int \<Rightarrow> int \<Rightarrow> int \<Rightarrow> WorldKnowledge \<Rightarrow> WorldKnowledge" where
  "set_position r x y turn s =
     s\<lparr>objects := (objects s)
          (r := (objects s r)\<lparr>bot_x := Some x, bot_y := Some y, bot_posUpdateTurn := Some turn\<rparr>)\<rparr>"

text \<open>The parameter \<^verbatim>\<open>trueVision\<close> is accepted and never read.\<close>

definition updatePosition ::
  "int \<Rightarrow> int \<Rightarrow> int \<Rightarrow> int option \<Rightarrow> bool \<Rightarrow> WorldKnowledge \<Rightarrow> wk_error + WorldKnowledge" where
  "updatePosition i x y turn trueVision s =
     (case turn of
        None \<Rightarrow> Inl NoTurnSpecified
      | Some t \<Rightarrow>
          (case util_known_bots s i of
             None \<Rightarrow> Inr s
           | Some r \<Rightarrow>
               (let b = objects s r in
                if outdated (bot_posUpdateTurn b) t then Inr s
                else if bot_unit b < 2 then
                  (if bot_x b \<noteq> None then
                     (if bot_x b \<noteq> Some x \<or> bot_y b \<noteq> Some y then
                        Inr (wk_log CannotRecover
                              (wk_log (UpdateStaticStructure (bot_unit b) (bot_x b, bot_y b) (x, y)) s))
                      else Inr (set_position r x y t s))
                   else Inr (set_position r x y t
                              (s\<lparr>util_known_structures := util_known_structures s @ [r]\<rparr>)))
                else Inr (set_position r x y t s))))"

text \<open>
  Example states. A castle (unit type 0) with id 1 of team 0 is sighted and then seen at
  \<open>(3, 4)\<close> in turn 5; in \<open>wk_damaged\<close> it has in addition taken 10 damage.
\<close>

definition wk_sighted :: WorldKnowledge where
  "wk_sighted = initialSighting 1 0 0 False (new_WorldKnowledge True)"

definition wk_positioned :: WorldKnowledge where
  "wk_positioned = set_position 0 3 4 5 (wk_sighted\<lparr>util_known_structures := [0]\<rparr>)"

definition wk_damaged :: WorldKnowledge where
  "wk_damaged = wk_positioned\<lparr>objects := (objects wk_positioned)
      (0 := (objects wk_positioned 0)\<lparr>bot_damage := Some 10\<rparr>)\<rparr>"


section \<open>BitCodec (robot.js, decodeBits and encodeBits)\<close>

text \<open>
  JavaScript's bitwise operators convert their operands to 32-bit two's complement integers
  (\<^verbatim>\<open>ToInt32\<close>), take shift counts modulo 32 and return the signed reading of the resulting
  32 bits. \<^verbatim>\<open>>>\<close> is the sign-propagating shift. Numbers that are integers are \<open>int\<close>; a
  pattern entry is a bit count, a \<open>nat\<close>.
\<close>

definition toInt32 :: "int \<Rightarrow> 32 word" where
  "toInt32 a = word_of_int a"

definition js_shl :: "int \<Rightarrow> nat \<Rightarrow> int" where
  "js_shl a p = sint (push_bit (p mod 32) (toInt32 a))"

definition js_sar :: "int \<Rightarrow> nat \<Rightarrow> int" where
  "js_sar a p = sint (signed_drop_bit (p mod 32) (toInt32 a))"

definition js_and :: "int \<Rightarrow> int \<Rightarrow> int" where
  "js_and a b = sint (toInt32 a AND toInt32 b)"

definition js_or :: "int \<Rightarrow> int \<Rightarrow> int" where
  "js_or a b = sint (toInt32 a OR toInt32 b)"

text \<open>
  The loop of \<^verbatim>\<open>decodeBits\<close> runs from the last pattern entry to the first and writes
  \<^verbatim>\<open>result[i]\<close>; here it walks the reversed pattern and puts each segment in front of the
  segments decoded so far.
\<close>

fun decode_loop :: "int \<Rightarrow> nat list \<Rightarrow> int list \<Rightarrow> int list" where
  "decode_loop msg [] result = result"
| "decode_loop msg (p # ps) result =
     decode_loop (js_sar msg p) ps (js_and msg (js_shl 1 p - 1) # result)"

definition decodeBits :: "int \<Rightarrow> nat list \<Rightarrow> int list" where
  "decodeBits msg pattern = decode_loop msg (rev pattern) []"

text \<open>
  The contents handed to \<^verbatim>\<open>encodeBits\<close> are arbitrary numbers, here rationals, so that the
  test \<^verbatim>\<open>Number.isSafeInteger\<close> has something to reject. Each \<^verbatim>\<open>throw\<close> is an error value.
\<close>

datatype encode_error =
    LengthsMismatch
  | NotASafeInteger rat
  | NegativeValue rat
  | ExceedsMaximum rat nat

definition isSafeInteger :: "rat \<Rightarrow> bool" where
  "isSafeInteger c = (c = of_int \<lfloor>c\<rfloor> \<and> \<bar>c\<bar> \<le> 2 ^ 53 - 1)"

fun encode_loop :: "int \<Rightarrow> rat list \<Rightarrow> nat list \<Rightarrow> encode_error + int" where
  "encode_loop msg (c # cs) (p # ps) =
     (if \<not> isSafeInteger c then Inl (NotASafeInteger c)
      else if c < 0 then Inl (NegativeValue c)
      else if c \<ge> of_int (js_shl 1 p) then Inl (ExceedsMaximum c p)
      else encode_loop (js_or (js_shl msg p) \<lfloor>c\<rfloor>) cs ps)"
| "encode_loop msg cs ps = Inr msg"

definition encodeBits :: "rat list \<Rightarrow> nat list \<Rightarrow> encode_error + int" where
  "encodeBits contents pattern =
     (if length contents \<noteq> length pattern then Inl LengthsMismatch
      else encode_loop 0 contents pattern)"


text \<open>
  Two notions for the proofs: a value that a segment of \<open>p\<close> bits admits without an error,
  and the loop body of \<^verbatim>\<open>encodeBits\<close> on such a value, \<^verbatim>\<open>msg << p | c\<close>.
\<close>

definition fits :: "int \<Rightarrow> nat \<Rightarrow> bool" where
  "fits v p = (0 \<le> v \<and> v < 2 ^ p \<and> p \<le> 30)"

definition pack :: "int \<Rightarrow> int \<times> nat \<Rightarrow> int" where
  "pack m vp = js_or (js_shl m (snd vp)) (fst vp)"


section \<open>PriorityQueue (PriorityQueue.js)\<close>

text \<open>
  The queue is an array \<^verbatim>\<open>_content\<close>, a binary heap, and the comparator given to the
  constructor, a function that returns a negative number if its first argument is smaller, 0
  if the two are equal and a positive number otherwise. Only the sign of its result is used.
\<close>

record 'a PriorityQueue =
  comparator :: "'a \<Rightarrow> 'a \<Rightarrow> int"
  content :: "'a list"

datatype pq_error = EmptyQueue

definition new_PriorityQueue :: "('a \<Rightarrow> 'a \<Rightarrow> int) \<Rightarrow> 'a PriorityQueue" where
  "new_PriorityQueue cmp = \<lparr>comparator = cmp, content = []\<rparr>"

definition clear_pq :: "'a PriorityQueue \<Rightarrow> 'a PriorityQueue" where
  "clear_pq q = q\<lparr>content := []\<rparr>"

definition count_pq :: "'a PriorityQueue \<Rightarrow> nat" where
  "count_pq q = length (content q)"

text \<open>
  The \<^verbatim>\<open>for (;;)\<close> loop of \<^verbatim>\<open>dequeue\<close>. \<open>lastIndex\<close> is an integer: it is \<open>-1\<close> when the
  last element has just been removed.
\<close>

function sift_down :: "('a \<Rightarrow> 'a \<Rightarrow> int) \<Rightarrow> int \<Rightarrow> 'a list \<Rightarrow> nat \<Rightarrow> 'a list" where
  "sift_down cmp lastIndex c parentIndex =
     (let childIndex = parentIndex * 2 + 1 in
      if int childIndex > lastIndex then c
      else
        let rightChildIndex = childIndex + 1;
            childIndex =
              (if int rightChildIndex \<le> lastIndex \<and> cmp (c ! rightChildIndex) (c ! childIndex) < 0
               then rightChildIndex else childIndex)
        in if cmp (c ! parentIndex) (c ! childIndex) \<le> 0 then c
           else sift_down cmp lastIndex
                  (c[parentIndex := c ! childIndex, childIndex := c ! parentIndex]) childIndex)"
  by pat_completeness auto
termination
  by (relation "measure (\<lambda>(cmp, lastIndex, c, parentIndex). nat (lastIndex + 1) - parentIndex)")
    (auto split: if_splits)

declare sift_down.simps [simp del]

text \<open>\<^verbatim>\<open>dequeue\<close> raises on an empty queue; otherwise it returns the front and the new queue.\<close>

definition dequeue :: "'a PriorityQueue \<Rightarrow> pq_error + ('a \<times> 'a PriorityQueue)" where
  "dequeue q =
     (let c = content q; cmp = comparator q in
      if length c = 0 then Inl EmptyQueue
      else
        let front = c ! 0;
            lastIndex = int (length c) - 1;
            c = butlast (c[0 := c ! nat lastIndex]);
            lastIndex = lastIndex - 1
        in Inr (front, q\<lparr>content := sift_down cmp lastIndex c 0\<rparr>))"

text \<open>The \<^verbatim>\<open>while (childIndex > 0)\<close> loop of \<^verbatim>\<open>enqueue\<close>.\<close>

function sift_up :: "('a \<Rightarrow> 'a \<Rightarrow> int) \<Rightarrow> 'a list \<Rightarrow> nat \<Rightarrow> 'a list" where
  "sift_up cmp c childIndex =
     (if childIndex > 0 then
        let parentIndex = (childIndex - 1) div 2 in
        if cmp (c ! childIndex) (c ! parentIndex) \<ge> 0 then c
        else sift_up cmp (c[childIndex := c ! parentIndex, parentIndex := c ! childIndex])
               parentIndex
      else c)"
  by pat_completeness auto
termination
  by (relation "measure (\<lambda>(cmp, c, childIndex). childIndex)") auto

declare sift_up.simps [simp del]

definition enqueue :: "'a \<Rightarrow> 'a PriorityQueue \<Rightarrow> 'a PriorityQueue" where
  "enqueue item q =
     (let c = content q @ [item]; childIndex = length c - 1
      in q\<lparr>content := sift_up (comparator q) c childIndex\<rparr>)"

text \<open>
  A caller of the queue: a sequence of \<^verbatim>\<open>enqueue\<close> and \<^verbatim>\<open>dequeue\<close> calls, run in order, that
  collects what the \<^verbatim>\<open>dequeue\<close> calls return and stops at the first error.
\<close>

datatype 'a pq_op = Enqueue 'a | Dequeue

fun run_ops :: "'a pq_op list \<Rightarrow> 'a PriorityQueue \<Rightarrow> pq_error + ('a list \<times> 'a PriorityQueue)" where
  "run_ops [] q = Inr ([], q)"
| "run_ops (Enqueue x # ops) q = run_ops ops (enqueue x q)"
| "run_ops (Dequeue # ops) q =
     (case dequeue q of
        Inl e \<Rightarrow> Inl e
      | Inr (x, q') \<Rightarrow>
          (case run_ops ops q' of
             Inl e \<Rightarrow> Inl e
           | Inr (xs, q'') \<Rightarrow> Inr (x # xs, q'')))"

text \<open>
  The contract of a comparator, as far as the queue reads it: the signs of \<open>cmp a b\<close> and
  \<open>cmp b a\<close> agree with each other, and "not greater" is transitive.
\<close>

definition consistent :: "('a \<Rightarrow> 'a \<Rightarrow> int) \<Rightarrow> bool" where
  "consistent cmp \<longleftrightarrow>
     (\<forall>a b. 0 \<le> cmp a b \<longrightarrow> cmp b a \<le> 0) \<and>
     (\<forall>a b c. cmp a b \<le> 0 \<longrightarrow> cmp b c \<le> 0 \<longrightarrow> cmp a c \<le> 0)"

text \<open>
  Notions for the proofs: the heap property of the array, the property with one element on
  its way up (\<open>up_inv\<close>) or on its way down (\<open>down_inv\<close>), and the child that the
  \<^verbatim>\<open>dequeue\<close> loop continues with.
\<close>

definition heap :: "('a \<Rightarrow> 'a \<Rightarrow> int) \<Rightarrow> 'a list \<Rightarrow> bool" where
  "heap cmp c \<longleftrightarrow> (\<forall>i. 0 < i \<and> i < length c \<longrightarrow> cmp (c ! ((i - 1) div 2)) (c ! i) \<le> 0)"

definition up_inv :: "('a \<Rightarrow> 'a \<Rightarrow> int) \<Rightarrow> 'a list \<Rightarrow> nat \<Rightarrow> bool" where
  "up_inv cmp c k \<longleftrightarrow>
     k < length c \<and>
     (\<forall>i. 0 < i \<and> i < length c \<and> i \<noteq> k \<longrightarrow> cmp (c ! ((i - 1) div 2)) (c ! i) \<le> 0) \<and>
     (\<forall>i. 0 < i \<and> i < length c \<and> (i - 1) div 2 = k \<and> 0 < k \<longrightarrow>
          cmp (c ! ((k - 1) div 2)) (c ! i) \<le> 0)"

definition down_inv :: "('a \<Rightarrow> 'a \<Rightarrow> int) \<Rightarrow> 'a list \<Rightarrow> nat \<Rightarrow> bool" where
  "down_inv cmp c k \<longleftrightarrow>
     (\<forall>i. 0 < i \<and> i < length c \<and> (i - 1) div 2 \<noteq> k \<longrightarrow>
          cmp (c ! ((i - 1) div 2)) (c ! i) \<le> 0) \<and>
     (\<forall>i. 0 < i \<and> i < length c \<and> (i - 1) div 2 = k \<and> 0 < k \<longrightarrow>
          cmp (c ! ((k - 1) div 2)) (c ! i) \<le> 0)"

definition smaller_child :: "('a \<Rightarrow> 'a \<Rightarrow> int) \<Rightarrow> 'a list \<Rightarrow> nat \<Rightarrow> nat" where
  "smaller_child cmp c k =
     (if k * 2 + 2 < length c \<and> cmp (c ! (k * 2 + 2)) (c ! (k * 2 + 1)) < 0
      then k * 2 + 2 else k * 2 + 1)"

text \<open>The comparator of integers by difference, as in \<^verbatim>\<open>(x, y) => x.cost - y.cost\<close>.\<close>

definition cmp_int :: "int \<Rightarrow> int \<Rightarrow> int" where
  "cmp_int x y = x - y"


section \<open>Pathfinder (robot.js, findPath and what it calls)\<close>

text \<open>
  A tile is an array \<^verbatim>\<open>[x, y]\<close>. The robot is what \<^verbatim>\<open>findPath\<close> reads and writes of
  \<^verbatim>\<open>this\<close>: its own position, unit type and turn (\<^verbatim>\<open>this.me\<close>), the dimensions of
  \<^verbatim>\<open>this.map\<close>, the terrain map returned by \<^verbatim>\<open>getPassableMap()\<close> as a lookup
  \<open>passable_map y x\<close> on the tiles of the board, the positions of the robots that are visible
  or radioing (the own robot among them), the cache of the true vision map in the fields
  \<^verbatim>\<open>_util_tv_cache_turn\<close> (\<open>None\<close> while it was never assigned) and \<^verbatim>\<open>_util_tv_cache_map\<close>, and
  the two columns \<^verbatim>\<open>SPEED\<close> and \<^verbatim>\<open>FUEL_PER_MOVE\<close> of the game's unit table \<^verbatim>\<open>SPECS.UNITS\<close>,
  which is not part of the repository and is a parameter here.
\<close>

type_synonym cell = "int \<times> int"

record robot =
  me_x :: int
  me_y :: int
  me_unit :: int
  me_turn :: int
  map_height :: int
  map_width :: int
  passable_map :: "int \<Rightarrow> int \<Rightarrow> bool"
  perceived :: "cell list"
  util_tv_cache_turn :: "int option"
  util_tv_cache_map :: "int \<Rightarrow> int \<Rightarrow> bool"
  SPEED :: "int \<Rightarrow> int"
  FUEL_PER_MOVE :: "int \<Rightarrow> int"

definition getPassableMap :: "robot \<Rightarrow> int \<Rightarrow> int \<Rightarrow> bool" where
  "getPassableMap env = passable_map env"

text \<open>
  \<^verbatim>\<open>generateTrueVisionPassableMap\<close>. When the cache is not of the current turn, it is filled
  with a copy of the terrain map in which the tile of every perceived robot is impassable; the
  result is the cached map in either case, so that what other code has written into the cached
  array during the turn (\<^verbatim>\<open>calculateDamageMap\<close> sets the own tile passable in it) is returned
  as it stands. The function returns the map and the robot with its cache.
\<close>

definition generateTrueVisionPassableMap :: "robot \<Rightarrow> (int \<Rightarrow> int \<Rightarrow> bool) \<times> robot" where
  "generateTrueVisionPassableMap env =
     (let env =
            (if util_tv_cache_turn env \<noteq> Some (me_turn env) then
               (let tvmap = fold (\<lambda>r tvmap. (\<lambda>y x. if y = snd r \<and> x = fst r then False
                                                   else tvmap y x))
                              (perceived env) (getPassableMap env)
                in env\<lparr>util_tv_cache_map := tvmap, util_tv_cache_turn := Some (me_turn env)\<rparr>)
             else env)
      in (util_tv_cache_map env, env))"

text \<open>
  \<^verbatim>\<open>truelyPassableDelta\<close> and \<^verbatim>\<open>truelyPassableAbsolute\<close> with the parameter \<^verbatim>\<open>tvmap\<close> given,
  as \<^verbatim>\<open>findPath\<close> calls them; then they read the robot and write nothing. The one call of
  \<^verbatim>\<open>findPath\<close> that leaves the parameter out is written out in \<open>findPath\<close> below.
\<close>

definition truelyPassableDelta :: "robot \<Rightarrow> int \<Rightarrow> int \<Rightarrow> (int \<Rightarrow> int \<Rightarrow> bool) \<Rightarrow> bool" where
  "truelyPassableDelta env dx dy tvmap =
     (let height = map_height env; width = map_width env;
          x = me_x env + dx; y = me_y env + dy
      in if x < 0 \<or> y < 0 \<or> x \<ge> width \<or> y \<ge> height then False else tvmap y x)"

definition truelyPassableAbsolute :: "robot \<Rightarrow> int \<Rightarrow> int \<Rightarrow> (int \<Rightarrow> int \<Rightarrow> bool) \<Rightarrow> bool" where
  "truelyPassableAbsolute env x y tvmap = truelyPassableDelta env (x - me_x env) (y - me_y env) tvmap"

text \<open>\<^verbatim>\<open>Math.ceil(Math.sqrt(n))\<close> for a natural number: the least \<open>k\<close> with \<open>n \<le> k * k\<close>.\<close>

definition ceil_sqrt :: "nat \<Rightarrow> nat" where
  "ceil_sqrt n = (case find (\<lambda>k. n \<le> k * k) [0..<Suc n] of Some k \<Rightarrow> k | None \<Rightarrow> n)"

text \<open>
  The two nested loops of \<^verbatim>\<open>listDeltaTiles\<close> and the sort by squared radius. For a negative
  \<^verbatim>\<open>maxRadiusSq\<close> the square root is \<^verbatim>\<open>NaN\<close> and the loops do not run.
\<close>

definition listDeltaTiles :: "int \<Rightarrow> int \<Rightarrow> cell list" where
  "listDeltaTiles minRadiusSq maxRadiusSq =
     (if maxRadiusSq < 0 then []
      else
        let maxRadius = int (ceil_sqrt (nat maxRadiusSq));
            result = concat (map (\<lambda>dx. concat (map (\<lambda>dy.
                       (let radiusSq = dx * dx + dy * dy
                        in if minRadiusSq \<le> radiusSq \<and> radiusSq \<le> maxRadiusSq then [(dx, dy)] else []))
                       [- maxRadius..maxRadius])) [- maxRadius..maxRadius])
        in sort_key (\<lambda>l. fst l * fst l + snd l * snd l) result)"

definition listPossibleMoves :: "robot \<Rightarrow> int \<Rightarrow> cell list" where
  "listPossibleMoves env unit = listDeltaTiles 1 (SPEED env unit)"

text \<open>
  The entries of the frontier, and the state of the search: the frontier and the three grids.
  A grid is a lookup by tile; a tile that was never written reads \<open>False\<close> in \<^verbatim>\<open>closedSet\<close>,
  \<open>None\<close> (\<^verbatim>\<open>null\<close>) in \<^verbatim>\<open>cameFrom\<close> and \<open>None\<close> (\<^verbatim>\<open>Infinity\<close>) in \<^verbatim>\<open>gScore\<close>. The search
  only indexes a grid at the start tile, whose row is checked in \<open>findPath\<close> below, and at
  tiles that passed \<^verbatim>\<open>truelyPassableAbsolute\<close>, which are on the board.
\<close>

record node =
  cost :: int
  elem :: cell
  came_from :: "cell option"

record search_state =
  frontier :: "node PriorityQueue"
  closedSet :: "cell \<Rightarrow> bool"
  cameFrom :: "cell \<Rightarrow> cell option"
  gScore :: "cell \<Rightarrow> int option"

text \<open>The local constants of \<^verbatim>\<open>findPath\<close> that its loops read.\<close>

record locals =
  L_targets :: "cell list"
  L_mappingMode :: bool
  L_tvmap :: "int \<Rightarrow> int \<Rightarrow> bool"
  L_fuelFactor :: int
  L_timeFactor :: int
  L_deltaActions :: "cell list"
  L_FUEL_PER_MOVE :: int

text \<open>
  The heuristic: 0 in mapping mode, else the least Manhattan distance to a target. \<open>None\<close>
  is the initial \<^verbatim>\<open>Infinity\<close> of \<^verbatim>\<open>best\<close>; it is the result only for an empty target list,
  with which \<^verbatim>\<open>findPath\<close> has returned before the heuristic is called, so that the value 0
  chosen for it below is never used.
\<close>

fun nearest :: "int option \<Rightarrow> cell list \<Rightarrow> cell \<Rightarrow> int option" where
  "nearest best [] pos = best"
| "nearest best (t # ts) pos =
     (let score = \<bar>fst pos - fst t\<bar> + \<bar>snd pos - snd t\<bar>
      in nearest (case best of None \<Rightarrow> Some score
                  | Some b \<Rightarrow> if b > score then Some score else Some b) ts pos)"

definition heuristic :: "locals \<Rightarrow> cell \<Rightarrow> int" where
  "heuristic L pos =
     (if L_mappingMode L then 0
      else case nearest None (L_targets L) pos of Some best \<Rightarrow> best | None \<Rightarrow> 0)"

text \<open>\<^verbatim>\<open>(x, y) => x.cost - y.cost\<close>\<close>

definition cost_order :: "node \<Rightarrow> node \<Rightarrow> int" where
  "cost_order x y = cost x - cost y"

text \<open>
  The body of the loop over the available actions for the tile \<open>current\<close>. A \<^verbatim>\<open>gScore\<close> of
  \<^verbatim>\<open>Infinity\<close> at \<open>current\<close> makes the comparison false.
\<close>

definition visit_action :: "robot \<Rightarrow> locals \<Rightarrow> cell \<Rightarrow> cell \<Rightarrow> search_state \<Rightarrow> search_state" where
  "visit_action env L current action st =
     (let fuelCost = L_FUEL_PER_MOVE L * (fst action * fst action + snd action * snd action);
          totalActionCost = fuelCost * L_fuelFactor L + 1 * L_timeFactor L;
          newX = fst current + fst action;
          newY = snd current + snd action
      in if \<not> truelyPassableAbsolute env newX newY (L_tvmap L) then st
         else if closedSet st (newX, newY) then st
         else
           (case gScore st current of
              None \<Rightarrow> st
            | Some g \<Rightarrow>
                (let tentativeGScore = g + totalActionCost
                 in if (case gScore st (newX, newY) of None \<Rightarrow> True
                        | Some old \<Rightarrow> tentativeGScore < old)
                    then
                      (let expectedTotalCost = tentativeGScore + heuristic L (newX, newY)
                       in st\<lparr>gScore := (gScore st)((newX, newY) := Some tentativeGScore),
                             frontier := enqueue \<lparr>cost = expectedTotalCost, elem = (newX, newY),
                                                  came_from = Some current\<rparr> (frontier st)\<rparr>)
                    else st)))"

definition expand :: "robot \<Rightarrow> locals \<Rightarrow> cell \<Rightarrow> cell list \<Rightarrow> search_state \<Rightarrow> search_state" where
  "expand env L current actions st = fold (visit_action env L current) actions st"

text \<open>
  The loop that follows \<^verbatim>\<open>cameFrom\<close> from the reached target back to the start. Nothing in
  its text bounds it, so it is a partial function: \<open>None\<close> stands for not returning.
\<close>

partial_function (option) reconstruct ::
  "(cell \<Rightarrow> cell option) \<Rightarrow> cell option \<Rightarrow> cell list \<Rightarrow> cell list option" where
  "reconstruct cf cur ret =
     (case cur of
        None \<Rightarrow> Some ret
      | Some c \<Rightarrow> reconstruct cf (cf c) (ret @ [c]))"

text \<open>
  What \<^verbatim>\<open>findPath\<close> returns: a path, \<^verbatim>\<open>null\<close>, or in mapping mode the grid of scores; and
  the errors it can raise.
\<close>

datatype path_result = Path "cell list" | NoRoute | ScoreMap "cell \<Rightarrow> int option"

datatype find_error = TypeError | QueueError pq_error

text \<open>The tiles of the board.\<close>

definition on_board :: "robot \<Rightarrow> cell \<Rightarrow> bool" where
  "on_board env c \<longleftrightarrow> 0 \<le> fst c \<and> fst c < map_width env \<and> 0 \<le> snd c \<and> snd c < map_height env"

text \<open>
  The \<^verbatim>\<open>while (frontier.count() > 0)\<close> loop with the two \<^verbatim>\<open>return\<close> statements after it.
  Its termination is proved below, after the facts about the queue that the proof needs.
\<close>

function search :: "robot \<Rightarrow> locals \<Rightarrow> search_state \<Rightarrow> (find_error + path_result) option" where
  "search env L st =
     (if count_pq (frontier st) > 0 then
        (case dequeue (frontier st) of
           Inl e \<Rightarrow> Some (Inl (QueueError e))
         | Inr (current, fr) \<Rightarrow>
             (let st = st\<lparr>frontier := fr\<rparr> in
              if closedSet st (elem current) then search env L st
              else
                (let st = st\<lparr>closedSet := (closedSet st)(elem current := True),
                             cameFrom := (cameFrom st)(elem current := came_from current)\<rparr>
                 in if \<not> L_mappingMode L \<and> list_ex (\<lambda>t. elem current = t) (L_targets L)
                    then map_option (\<lambda>ret. Inr (Path (rev ret)))
                           (reconstruct (cameFrom st) (Some (elem current)) [])
                    else search env L (expand env L (elem current) (L_deltaActions L) st))))
      else if L_mappingMode L then Some (Inr (ScoreMap (gScore st)))
      else Some (Inr NoRoute))"
  by pat_completeness auto

text \<open>
  The two counts of the termination argument: the frontier entries that are not on the board,
  and the tiles of the board that are not closed.
\<close>

definition off_count :: "robot \<Rightarrow> search_state \<Rightarrow> nat" where
  "off_count env st = size (filter_mset (\<lambda>n. \<not> on_board env (elem n)) (mset (content (frontier st))))"

definition open_count :: "robot \<Rightarrow> search_state \<Rightarrow> nat" where
  "open_count env st = card {c. on_board env c \<and> \<not> closedSet st c}"

text \<open>
  The arguments of \<^verbatim>\<open>findPath\<close>: \<^verbatim>\<open>targets\<close> is one tile or an array of tiles, \<^verbatim>\<open>mode\<close> and
  \<^verbatim>\<open>start\<close> may be left out, and of \<^verbatim>\<open>flags\<close> the function reads \<^verbatim>\<open>map\<close>, \<^verbatim>\<open>unit\<close> and
  \<^verbatim>\<open>tvmap\<close>.
\<close>

datatype target_arg = OneTarget cell | TargetList "cell list"

record flags =
  flag_map :: bool
  flag_unit :: "int option"
  flag_tvmap :: "(int \<Rightarrow> int \<Rightarrow> bool) option"

definition no_flags :: flags where
  "no_flags = \<lparr>flag_map = False, flag_unit = None, flag_tvmap = None\<rparr>"

definition NAV_ECONOMIC :: int where "NAV_ECONOMIC = 0"
definition NAV_FASTEST :: int where "NAV_FASTEST = 1"

text \<open>
  \<^verbatim>\<open>if (!Array.isArray(targets[0])) targets = [targets];\<close> On the empty array the test
  succeeds too and \<^verbatim>\<open>targets\<close> becomes \<^verbatim>\<open>[[]]\<close>, an array that holds no tile: \<open>None\<close>. With
  it, outside mapping mode, the call \<^verbatim>\<open>truelyPassableAbsolute(...targets[i], tvmap)\<close> passes
  the map as \<^verbatim>\<open>x\<close> and nothing as \<^verbatim>\<open>y\<close> and \<^verbatim>\<open>tvmap\<close>: \<^verbatim>\<open>truelyPassableDelta\<close> fetches
  the true vision map, computes the coordinates \<^verbatim>\<open>NaN\<close>, which pass the bounds test, reads
  \<^verbatim>\<open>tvmap[NaN][NaN]\<close> and raises a \<^verbatim>\<open>TypeError\<close>.
\<close>

fun promote_targets :: "target_arg \<Rightarrow> cell list option" where
  "promote_targets (OneTarget t) = Some [t]"
| "promote_targets (TargetList []) = None"
| "promote_targets (TargetList ts) = Some ts"

text \<open>
  \<^verbatim>\<open>findPath\<close>. The assignment \<^verbatim>\<open>gScore[start[1]][start[0]] = 0\<close> raises a \<^verbatim>\<open>TypeError\<close> when
  the row \<^verbatim>\<open>start[1]\<close> is not a row of the grid. The result is what the call returns or
  raises (\<open>None\<close>: it does not return) and the robot, whose cache the call may have filled.
\<close>

definition findPath ::
  "robot \<Rightarrow> target_arg \<Rightarrow> int option \<Rightarrow> cell option \<Rightarrow> flags \<Rightarrow>
     (find_error + path_result) option \<times> robot" where
  "findPath env targets mode start flags =
     (let mode = (case mode of None \<Rightarrow> NAV_ECONOMIC
                  | Some m \<Rightarrow> if m \<noteq> 0 then m else NAV_ECONOMIC);
          mappingMode = flag_map flags;
          unit = (case flag_unit flags of None \<Rightarrow> me_unit env
                  | Some u \<Rightarrow> if u \<noteq> 0 then u else me_unit env);
          (fuelFactor, timeFactor) = (if mode = NAV_ECONOMIC then (10, 1) else (1, 10));
          start = (case start of None \<Rightarrow> (me_x env, me_y env) | Some s \<Rightarrow> s);
          (tvmap, env) = (if mappingMode then (getPassableMap env, env)
                          else (case flag_tvmap flags of Some m \<Rightarrow> (m, env)
                                | None \<Rightarrow> generateTrueVisionPassableMap env))
      in case (if mappingMode then Some [] else promote_targets targets) of
           None \<Rightarrow> (Some (Inl TypeError), snd (generateTrueVisionPassableMap env))
         | Some targets \<Rightarrow>
             (let hasPassableTarget =
                    list_ex (\<lambda>t. truelyPassableAbsolute env (fst t) (snd t) tvmap) targets
              in if \<not> hasPassableTarget \<and> \<not> mappingMode then (Some (Inr NoRoute), env)
                 else
                   (let L = \<lparr>L_targets = targets, L_mappingMode = mappingMode, L_tvmap = tvmap,
                             L_fuelFactor = fuelFactor, L_timeFactor = timeFactor,
                             L_deltaActions = listPossibleMoves env unit,
                             L_FUEL_PER_MOVE = FUEL_PER_MOVE env (me_unit env)\<rparr>;
                        frontier = enqueue \<lparr>cost = 0, elem = start, came_from = None\<rparr>
                                     (new_PriorityQueue cost_order)
                    in if snd start < 0 \<or> snd start \<ge> map_height env
                       then (Some (Inl TypeError), env)
                       else (search env L
                               \<lparr>frontier = frontier, closedSet = (\<lambda>_. False),
                                cameFrom = (\<lambda>_. None),
                                gScore = (\<lambda>_. None)(start := Some 0)\<rparr>, env))))"

text \<open>
  An example: a board of \<open>n\<close> by \<open>n\<close> passable tiles with the robot at \<open>(0, 0)\<close> in its
  first turn, perceiving only itself, its cache never assigned, and the speeds and fuel costs
  of the six unit types of the game.
\<close>

definition open_board :: "int \<Rightarrow> int \<Rightarrow> robot" where
  "open_board n unit =
     \<lparr>me_x = 0, me_y = 0, me_unit = unit, me_turn = 1, map_height = n, map_width = n,
      passable_map = (\<lambda>y x. True), perceived = [(0, 0)],
      util_tv_cache_turn = None, util_tv_cache_map = (\<lambda>y x. False),
      SPEED = (\<lambda>u. if u = 2 then 4 else if u = 3 then 9 else if u < 2 then 0 else 4),
      FUEL_PER_MOVE = (\<lambda>u. if u = 2 \<or> u = 3 then 1 else if u = 4 then 2 else if u = 5 then 3 else 0)\<rparr>"

text \<open>
  Notions for the proofs. A legal move leads by one of the available actions to a tile that
  is passable. \<open>back_path cf c q\<close>: following \<open>cf\<close> from \<open>c\<close> visits exactly the tiles \<open>q\<close>
  and ends at a tile without predecessor. The invariant of the search: from every closed tile
  the recorded predecessors lead back to the start over closed tiles by legal moves, and every
  frontier entry is the start or was reached by a legal move from a closed tile.
\<close>

definition legal :: "robot \<Rightarrow> locals \<Rightarrow> cell \<Rightarrow> cell \<Rightarrow> bool" where
  "legal env L a b \<longleftrightarrow>
     (fst b - fst a, snd b - snd a) \<in> set (L_deltaActions L) \<and>
     truelyPassableAbsolute env (fst b) (snd b) (L_tvmap L)"

inductive back_path :: "(cell \<Rightarrow> cell option) \<Rightarrow> cell \<Rightarrow> cell list \<Rightarrow> bool" where
  root: "cf c = None \<Longrightarrow> back_path cf c [c]"
| link: "cf c = Some p \<Longrightarrow> back_path cf p q \<Longrightarrow> back_path cf c (c # q)"

definition traced :: "robot \<Rightarrow> locals \<Rightarrow> cell \<Rightarrow> search_state \<Rightarrow> cell \<Rightarrow> cell list \<Rightarrow> bool" where
  "traced env L s st c q \<longleftrightarrow>
     back_path (cameFrom st) c q \<and> last q = s \<and>
     successively (\<lambda>b a. legal env L a b) q \<and> (\<forall>d\<in>set q. closedSet st d)"

definition node_ok :: "robot \<Rightarrow> locals \<Rightarrow> cell \<Rightarrow> search_state \<Rightarrow> node \<Rightarrow> bool" where
  "node_ok env L s st n \<longleftrightarrow>
     (elem n = s \<and> came_from n = None) \<or>
     (\<exists>p. came_from n = Some p \<and> closedSet st p \<and> legal env L p (elem n))"

definition search_inv :: "robot \<Rightarrow> locals \<Rightarrow> cell \<Rightarrow> search_state \<Rightarrow> bool" where
  "search_inv env L s st \<longleftrightarrow>
     (\<forall>c. closedSet st c \<longrightarrow> (\<exists>q. traced env L s st c q)) \<and>
     (\<forall>n\<in>set (content (frontier st)). node_ok env L s st n)"

definition route :: "robot \<Rightarrow> locals \<Rightarrow> cell \<Rightarrow> cell list \<Rightarrow> bool" where
  "route env L s p \<longleftrightarrow>
     p \<noteq> [] \<and> hd p = s \<and> last p \<in> set (L_targets L) \<and> successively (legal env L) p"

text \<open>The tiles that a \<^verbatim>\<open>targets\<close> argument names.\<close>

fun goals :: "target_arg \<Rightarrow> cell list" where
  "goals (OneTarget t) = [t]"
| "goals (TargetList ts) = ts"

text \<open>
  The robot, the local constants and the first state of the search for the example of the
  specification: a pilgrim (unit type 2) plans from \<open>(2, 2)\<close> to the goals \<open>(5, 5)\<close> and
  \<open>(1, 1)\<close> in the mode \<^verbatim>\<open>NAV.FASTEST\<close> on an open board of 10 by 10 tiles. The search runs
  with the robot whose cache the call has filled.
\<close>

definition example_robot :: robot where
  "example_robot = snd (generateTrueVisionPassableMap (open_board 10 2))"

definition example_locals :: locals where
  "example_locals =
     \<lparr>L_targets = [(5, 5), (1, 1)], L_mappingMode = False,
      L_tvmap = fst (generateTrueVisionPassableMap (open_board 10 2)),
      L_fuelFactor = 1, L_timeFactor = 10,
      L_deltaActions = listPossibleMoves example_robot 2,
      L_FUEL_PER_MOVE = FUEL_PER_MOVE example_robot 2\<rparr>"

definition example_start :: search_state where
  "example_start =
     \<lparr>frontier = enqueue \<lparr>cost = 0, elem = (2, 2), came_from = None\<rparr>
                   (new_PriorityQueue cost_order),
      closedSet = (\<lambda>_. False), cameFrom = (\<lambda>_. None),
      gScore = (\<lambda>_. None)((2, 2) := Some 0)\<rparr>"

text \<open>
  The same for the call \<^verbatim>\<open>findPath([], NAV.FASTEST, undefined, {unit: SPECS.PROPHET, map: true})\<close>
  of \<^verbatim>\<open>robot.js\<close>, made by a castle (unit type 0) at \<open>(0, 0)\<close> on an open board of 3 by 3
  tiles; the prophet is the unit type 4.
\<close>

definition bfs_flags :: flags where
  "bfs_flags = \<lparr>flag_map = True, flag_unit = Some 4, flag_tvmap = None\<rparr>"

definition bfs_locals :: locals where
  "bfs_locals =
     \<lparr>L_targets = [], L_mappingMode = True,
      L_tvmap = getPassableMap (open_board 3 0),
      L_fuelFactor = 1, L_timeFactor = 10,
      L_deltaActions = listPossibleMoves (open_board 3 0) 4,
      L_FUEL_PER_MOVE = FUEL_PER_MOVE (open_board 3 0) 0\<rparr>"

definition bfs_start :: search_state where
  "bfs_start =
     \<lparr>frontier = enqueue \<lparr>cost = 0, elem = (0, 0), came_from = None\<rparr>
                   (new_PriorityQueue cost_order),
      closedSet = (\<lambda>_. False), cameFrom = (\<lambda>_. None),
      gScore = (\<lambda>_. None)((0, 0) := Some 0)\<rparr>"


section \<open>Properties of the outboxes\<close>

text \<open>
  C3. Arbitration of \<^verbatim>\<open>setEventMessage\<close> on both channels: with a message pending at priority
  \<open>p\<close>, the call wins (returns true and replaces priority, message and, on the radio channel,
  radius) exactly when \<open>priority > p\<close>; with \<open>priority \<le> p\<close> it returns false and the whole
  outbox is unchanged; with nothing pending (priority register empty) it always installs the
  message and returns true. The installed message is the queue of its parts: the one part \<open>m\<close>
  for a number \<open>m\<close>, and the parts \<open>ms\<close> in their order for an array \<open>ms\<close>.
\<close>

theorem setEventMessage_arbitration:
  "(util_rd_prio s = Some p \<longrightarrow>
      fst (radioSetEventMessage priority msg r s) = (p < priority) \<and>
      (p < priority \<longrightarrow> snd (radioSetEventMessage priority msg r s) =
         s\<lparr>util_rd_prio := Some priority,
           util_rd_msg := Some (case msg of Single m \<Rightarrow> [m] | Parts ms \<Rightarrow> ms),
           util_rd_radiusSq := r\<rparr>) \<and>
      (priority \<le> p \<longrightarrow> snd (radioSetEventMessage priority msg r s) = s)) \<and>
   (util_rd_prio s = None \<longrightarrow>
      radioSetEventMessage priority msg r s =
        (True, s\<lparr>util_rd_prio := Some priority,
                  util_rd_msg := Some (case msg of Single m \<Rightarrow> [m] | Parts ms \<Rightarrow> ms),
                  util_rd_radiusSq := r\<rparr>)) \<and>
   (util_ct_prio s = Some q \<longrightarrow>
      fst (castleTalkSetEventMessage priority msg s) = (q < priority) \<and>
      (q < priority \<longrightarrow> snd (castleTalkSetEventMessage priority msg s) =
         s\<lparr>util_ct_prio := Some priority,
           util_ct_msg := Some (case msg of Single m \<Rightarrow> [m] | Parts ms \<Rightarrow> ms)\<rparr>) \<and>
      (priority \<le> q \<longrightarrow> snd (castleTalkSetEventMessage priority msg s) = s)) \<and>
   (util_ct_prio s = None \<longrightarrow>
      castleTalkSetEventMessage priority msg s =
        (True, s\<lparr>util_ct_prio := Some priority,
                  util_ct_msg := Some (case msg of Single m \<Rightarrow> [m] | Parts ms \<Rightarrow> ms)\<rparr>))"
  by (cases msg) (auto simp: radioSetEventMessage_def castleTalkSetEventMessage_def)

theorem setEventMessage_arbitration_witness:
  "util_rd_prio new_outbox = None \<and> util_ct_prio new_outbox = None \<and>
   (let (okA, sA) = radioSetEventMessage 10 (Single 7) (Some 4) new_outbox;
        (okB, sB) = radioSetEventMessage 5 (Single 8) (Some 9) sA;
        (okC, sC) = radioSetEventMessage 20 (Parts [1, 2]) None sB
    in okA \<and> util_rd_prio sA = Some 10 \<and> (5::int) \<le> 10 \<and> \<not> okB \<and> sB = sA \<and>
       (10::int) < 20 \<and> okC \<and> util_rd_prio sC = Some 20 \<and> util_rd_msg sC = Some [1, 2] \<and>
       util_rd_radiusSq sC = None) \<and>
   (let (okA, sA) = castleTalkSetEventMessage 10 (Single 7) new_outbox;
        (okB, sB) = castleTalkSetEventMessage 5 (Single 8) sA;
        (okC, sC) = castleTalkSetEventMessage 20 (Single 9) sB
    in okA \<and> util_ct_prio sA = Some 10 \<and> \<not> okB \<and> sB = sA \<and>
       okC \<and> util_ct_prio sC = Some 20 \<and> util_ct_msg sC = Some [9])"
proof -
  define sA where "sA = new_outbox\<lparr>util_rd_prio := Some 10, util_rd_msg := Some [7],
                                    util_rd_radiusSq := Some 4\<rparr>"
  define tA where "tA = new_outbox\<lparr>util_ct_prio := Some 10, util_ct_msg := Some [7]\<rparr>"
  have n: "util_rd_prio new_outbox = None" "util_ct_prio new_outbox = None"
    by (simp_all add: new_outbox_def)
  have a: "util_rd_prio sA = Some 10" "util_ct_prio tA = Some 10"
    by (simp_all add: sA_def tA_def)
  note A = setEventMessage_arbitration [of new_outbox 0 10 "Single 7" "Some 4" 0]
  note B = setEventMessage_arbitration [of sA 10 5 "Single 8" "Some 9" 0]
  note C = setEventMessage_arbitration [of sA 10 20 "Parts [1, 2]" None 0]
  note D = setEventMessage_arbitration [of tA 0 5 "Single 8" None 10]
  note E = setEventMessage_arbitration [of tA 0 20 "Single 9" None 10]
  have rA: "radioSetEventMessage 10 (Single 7) (Some 4) new_outbox = (True, sA)"
    using A n by (simp add: sA_def)
  have rB: "radioSetEventMessage 5 (Single 8) (Some 9) sA = (False, sA)"
    using B a by (simp add: prod_eq_iff)
  have rC: "radioSetEventMessage 20 (Parts [1, 2]) None sA =
              (True, sA\<lparr>util_rd_prio := Some 20, util_rd_msg := Some [1, 2],
                        util_rd_radiusSq := None\<rparr>)"
    using C a by (simp add: prod_eq_iff)
  have cA: "castleTalkSetEventMessage 10 (Single 7) new_outbox = (True, tA)"
    using A n by (simp add: tA_def)
  have cB: "castleTalkSetEventMessage 5 (Single 8) tA = (False, tA)"
    using D a by (simp add: prod_eq_iff)
  have cC: "castleTalkSetEventMessage 20 (Single 9) tA =
              (True, tA\<lparr>util_ct_prio := Some 20, util_ct_msg := Some [9]\<rparr>)"
    using E a by (simp add: prod_eq_iff)
  show ?thesis
    using n a by (simp add: rA rB rC cA cB cC)
qed

text \<open>
  C9. Draining: with a non-empty pending payload, one send call transmits exactly the first
  queued element (with the pending radius on the radio channel), removes it and keeps the rest;
  the priority register is kept while elements remain and cleared when the queue becomes empty,
  after which a message of any priority wins arbitration; with no payload or an empty payload
  the call transmits nothing and changes nothing.
\<close>

theorem sendMessage_drains_one:
  "(util_rd_msg s = Some (m # rest) \<longrightarrow>
      radioSendMessage s =
        s\<lparr>signal_calls := signal_calls s @ [(m, util_rd_radiusSq s)],
          util_rd_msg := Some rest,
          util_rd_prio := (if rest = [] then None else util_rd_prio s)\<rparr> \<and>
      (rest = [] \<longrightarrow> fst (radioSetEventMessage priority msg r (radioSendMessage s)))) \<and>
   (util_rd_msg s = None \<or> util_rd_msg s = Some [] \<longrightarrow> radioSendMessage s = s) \<and>
   (util_ct_msg s = Some (m' # rest') \<longrightarrow>
      castleTalkSendMessage s =
        s\<lparr>castleTalk_calls := castleTalk_calls s @ [m'],
          util_ct_msg := Some rest',
          util_ct_prio := (if rest' = [] then None else util_ct_prio s)\<rparr> \<and>
      (rest' = [] \<longrightarrow> fst (castleTalkSetEventMessage priority msg (castleTalkSendMessage s)))) \<and>
   (util_ct_msg s = None \<or> util_ct_msg s = Some [] \<longrightarrow> castleTalkSendMessage s = s)"
  by (auto simp: radioSendMessage_def castleTalkSendMessage_def
      radioSetEventMessage_def castleTalkSetEventMessage_def)

theorem sendMessage_drains_one_witness:
  "(let s0 = snd (castleTalkSetEventMessage 70 (Single 9)
                (snd (radioSetEventMessage 20 (Parts [11, 12]) (Some 4) new_outbox)));
        s1 = castleTalkSendMessage (radioSendMessage s0);
        s2 = castleTalkSendMessage (radioSendMessage s1);
        s3 = castleTalkSendMessage (radioSendMessage s2)
    in util_rd_msg s0 = Some [11, 12] \<and> util_ct_msg s0 = Some [9] \<and>
       signal_calls s1 = [(11, Some 4)] \<and> util_rd_msg s1 = Some [12] \<and>
       util_rd_prio s1 = Some 20 \<and>
       castleTalk_calls s1 = [9] \<and> util_ct_msg s1 = Some [] \<and> util_ct_prio s1 = None \<and>
       signal_calls s2 = [(11, Some 4), (12, Some 4)] \<and> util_rd_msg s2 = Some [] \<and>
       util_rd_prio s2 = None \<and> castleTalk_calls s2 = [9] \<and>
       fst (radioSetEventMessage 0 (Single 1) None s2) \<and>
       fst (castleTalkSetEventMessage 0 (Single 1) s1) \<and>
       s3 = s2)"
proof -
  define s0 where "s0 = new_outbox\<lparr>util_rd_prio := Some 20, util_rd_msg := Some [11, 12],
       util_rd_radiusSq := Some 4, util_ct_prio := Some 70, util_ct_msg := Some [9]\<rparr>"
  define s1 where "s1 = s0\<lparr>signal_calls := [(11, Some 4)], util_rd_msg := Some [12],
       castleTalk_calls := [9], util_ct_msg := Some [], util_ct_prio := None\<rparr>"
  define s2 where "s2 = s1\<lparr>signal_calls := [(11, Some 4), (12, Some 4)],
       util_rd_msg := Some [], util_rd_prio := None\<rparr>"
  have init: "snd (castleTalkSetEventMessage 70 (Single 9)
      (snd (radioSetEventMessage 20 (Parts [11, 12]) (Some 4) new_outbox))) = s0"
    by (simp add: s0_def new_outbox_def radioSetEventMessage_def castleTalkSetEventMessage_def)
  have step1: "castleTalkSendMessage (radioSendMessage s0) = s1"
    using sendMessage_drains_one [of s0 11 "[12]" 0 "Single 1" None 9 "[]"]
    by (simp add: s0_def s1_def new_outbox_def castleTalkSendMessage_def)
  have step2: "castleTalkSendMessage (radioSendMessage s1) = s2"
    and win: "fst (radioSetEventMessage 0 (Single 1) None (radioSendMessage s1))"
    using sendMessage_drains_one [of s1 12 "[]" 0 "Single 1" None 9 "[]"]
    by (simp_all add: s0_def s1_def s2_def new_outbox_def castleTalkSendMessage_def
        radioSendMessage_def radioSetEventMessage_def)
  have step3: "castleTalkSendMessage (radioSendMessage s2) = s2"
    using sendMessage_drains_one [of s2 12 "[]" 0 "Single 1" None 9 "[]"]
    by (simp add: s0_def s1_def s2_def new_outbox_def)
  show ?thesis
    unfolding init Let_def step1 step2 step3
    by (simp add: s0_def s1_def s2_def new_outbox_def radioSetEventMessage_def
        castleTalkSetEventMessage_def)
qed

section \<open>Properties of WorldKnowledge\<close>

lemmas wk_example_defs = wk_damaged_def wk_positioned_def wk_sighted_def set_position_def
  initialSighting_def install_bot_def Let_def new_WorldKnowledge_def new_bot_def

text \<open>
  C4. Monotonic turns: for a known id whose record stores the position-update turn \<open>t0\<close>, a
  call of \<^verbatim>\<open>updatePosition\<close> with a turn that is not strictly greater than \<open>t0\<close> returns
  normally and leaves the whole knowledge base (position, turn, every other field, the
  structure list and the log) unchanged.
\<close>

theorem updatePosition_outdated_noop:
  assumes "util_known_bots s i = Some r"
    and "bot_posUpdateTurn (objects s r) = Some t0"
    and "turn \<le> t0"
  shows "updatePosition i x y (Some turn) tv s = Inr s"
  using assms by (simp add: updatePosition_def)

theorem updatePosition_outdated_noop_witness:
  "updatePosition 1 3 4 (Some 5) True wk_sighted = Inr wk_positioned \<and>
   util_known_bots wk_positioned 1 = Some 0 \<and>
   bot_posUpdateTurn (objects wk_positioned 0) = Some 5 \<and> (3::int) \<le> 5 \<and>
   updatePosition 1 8 9 (Some 3) False wk_positioned = Inr wk_positioned"
proof -
  have k: "util_known_bots wk_positioned 1 = Some 0"
    and t: "bot_posUpdateTurn (objects wk_positioned 0) = Some 5"
    by (simp_all add: wk_example_defs)
  have first: "updatePosition 1 3 4 (Some 5) True wk_sighted = Inr wk_positioned"
    by (simp add: wk_example_defs updatePosition_def)
  show ?thesis
    using updatePosition_outdated_noop [OF k t, of 3 8 9 False] first k t by simp
qed

text \<open>
  C5, as the code has it. For a structure (unit type below 2) whose position is recorded, a
  position update with a turn and with coordinates that differ from the recorded ones returns
  normally and changes neither the objects, the dictionary nor the structure list, so the
  stored position stays. The two wk_log messages are emitted exactly when a logger is configured
  and the turn of the update is strictly newer than the stored turn: an update that is not
  newer is discarded by the turn check, before the structure check and without any message.
\<close>

theorem updatePosition_structure_fixed:
  assumes "util_known_bots s i = Some r"
    and "bot_unit (objects s r) < 2"
    and "bot_x (objects s r) \<noteq> None"
    and "bot_x (objects s r) \<noteq> Some x \<or> bot_y (objects s r) \<noteq> Some y"
  shows "case updatePosition i x y (Some t) tv s of
           Inl e \<Rightarrow> False
         | Inr s' \<Rightarrow>
             objects s' = objects s \<and> util_known_bots s' = util_known_bots s \<and>
             util_known_structures s' = util_known_structures s \<and>
             findById i s' = findById i s \<and>
             logged s' =
               (if has_logger s \<and> \<not> outdated (bot_posUpdateTurn (objects s r)) t
                then logged s @ [UpdateStaticStructure (bot_unit (objects s r))
                                   (bot_x (objects s r), bot_y (objects s r)) (x, y),
                                 CannotRecover]
                else logged s)"
  using assms by (auto simp: updatePosition_def wk_log_def findById_def Let_def)

theorem updatePosition_structure_fixed_witness:
  "util_known_bots wk_positioned 1 = Some 0 \<and> bot_unit (objects wk_positioned 0) < 2 \<and>
   bot_x (objects wk_positioned 0) = Some 3 \<and> bot_y (objects wk_positioned 0) = Some 4 \<and>
   has_logger wk_positioned \<and>
   (case updatePosition 1 8 9 (Some 6) False wk_positioned of
      Inl e \<Rightarrow> False
    | Inr s' \<Rightarrow> findById 1 s' = findById 1 wk_positioned \<and>
                objects s' = objects wk_positioned \<and>
                logged s' = [UpdateStaticStructure 0 (Some 3, Some 4) (8, 9), CannotRecover])"
proof -
  have k: "util_known_bots wk_positioned 1 = Some 0"
    and u: "bot_unit (objects wk_positioned 0) < 2"
    and u0: "bot_unit (objects wk_positioned 0) = 0"
    and px: "bot_x (objects wk_positioned 0) = Some 3"
    and py: "bot_y (objects wk_positioned 0) = Some 4"
    and tn: "bot_posUpdateTurn (objects wk_positioned 0) = Some 5"
    and lg: "has_logger wk_positioned" "logged wk_positioned = []"
    by (simp_all add: wk_example_defs)
  have nx: "bot_x (objects wk_positioned 0) \<noteq> None"
    and d: "bot_x (objects wk_positioned 0) \<noteq> Some 8 \<or> bot_y (objects wk_positioned 0) \<noteq> Some 9"
    by (simp_all add: px)
  show ?thesis
    using updatePosition_structure_fixed [OF k u nx d, of 6 False] k u0 px py tn lg
    by (simp split: sum.splits)
qed

text \<open>
  The claim C5 as stated fails: the castle of \<open>wk_positioned\<close> is recorded at \<open>(3, 4)\<close> since
  turn 5 and a logger is configured; the update to \<open>(8, 9)\<close> with turn 3 is rejected, but the
  call returns the state it was given, whose log is empty: nothing is logged.
\<close>

theorem updatePosition_structure_silent_counterexample:
  "has_logger wk_positioned \<and> logged wk_positioned = [] \<and>
   findById 1 wk_positioned =
     Some \<lparr>bot_id = 1, bot_team = 0, bot_unit = 0, bot_x = Some 3, bot_y = Some 4,
           bot_posUpdateTurn = Some 5, bot_damage = None\<rparr> \<and>
   updatePosition 1 8 9 (Some 3) False wk_positioned = Inr wk_positioned"
  by (simp add: wk_example_defs updatePosition_def findById_def)

text \<open>
  C6. For a known id, a sighting that reports another team or another unit type is rejected
  when \<open>trueVision\<close> is false: the result is the given state except for the log, so the stored
  record is unchanged; when \<open>trueVision\<close> is true the stored team and unit type become the
  reported ones. A sighting that repeats the stored team and unit type returns the given state.
\<close>

theorem initialSighting_conflict:
  assumes "util_known_bots s i = Some r"
  shows "(bot_team (objects s r) \<noteq> tm \<or> bot_unit (objects s r) \<noteq> un \<longrightarrow>
            initialSighting i tm un False s = s\<lparr>logged := logged (initialSighting i tm un False s)\<rparr> \<and>
            findById i (initialSighting i tm un False s) = findById i s \<and>
            map_option bot_team (findById i (initialSighting i tm un True s)) = Some tm \<and>
            map_option bot_unit (findById i (initialSighting i tm un True s)) = Some un) \<and>
         (bot_team (objects s r) = tm \<and> bot_unit (objects s r) = un \<longrightarrow>
            initialSighting i tm un tv s = s)"
  using assms
  by (auto simp: initialSighting_def wk_log_def findById_def install_bot_def new_bot_def Let_def)

theorem initialSighting_conflict_witness:
  "util_known_bots wk_sighted 1 = Some 0 \<and>
   bot_team (objects wk_sighted 0) = 0 \<and> bot_unit (objects wk_sighted 0) = 0 \<and>
   findById 1 (initialSighting 1 1 0 False wk_sighted) = findById 1 wk_sighted \<and>
   logged (initialSighting 1 1 0 False wk_sighted) = [ChangeTeam 1 0 1] \<and>
   map_option bot_team (findById 1 (initialSighting 1 1 0 True wk_sighted)) = Some 1 \<and>
   map_option bot_unit (findById 1 (initialSighting 1 0 3 True wk_sighted)) = Some 3 \<and>
   initialSighting 1 0 0 True wk_sighted = wk_sighted"
proof -
  have k: "util_known_bots wk_sighted 1 = Some 0"
    and v: "bot_team (objects wk_sighted 0) = 0" "bot_unit (objects wk_sighted 0) = 0"
    by (simp_all add: wk_example_defs)
  have l: "logged (initialSighting 1 1 0 False wk_sighted) = [ChangeTeam 1 0 1]"
    by (simp add: wk_example_defs wk_log_def)
  have c1: "bot_team (objects wk_sighted 0) \<noteq> 1 \<or> bot_unit (objects wk_sighted 0) \<noteq> 0"
    and c2: "bot_team (objects wk_sighted 0) \<noteq> 0 \<or> bot_unit (objects wk_sighted 0) \<noteq> 3"
    and c3: "bot_team (objects wk_sighted 0) = 0 \<and> bot_unit (objects wk_sighted 0) = 0"
    by (simp_all add: v)
  from initialSighting_conflict [OF k, of 1 0 True] c1
  have r1: "findById 1 (initialSighting 1 1 0 False wk_sighted) = findById 1 wk_sighted"
    and r2: "map_option bot_team (findById 1 (initialSighting 1 1 0 True wk_sighted)) = Some 1"
    by blast+
  from initialSighting_conflict [OF k, of 0 3 True] c2
  have r3: "map_option bot_unit (findById 1 (initialSighting 1 0 3 True wk_sighted)) = Some 3"
    by blast
  from initialSighting_conflict [OF k, of 0 0 True] c3
  have r4: "initialSighting 1 0 0 True wk_sighted = wk_sighted"
    by blast
  show ?thesis
    using k v l r1 r2 r3 r4 by blast
qed

text \<open>
  C10. For a known id, a conflicting sighting with \<open>trueVision\<close> set stores a fresh record
  under the id that has the id, the reported team and the reported unit type and no position,
  no position-update turn and no damage, and the initial-sighting callback is invoked once
  more, with that record.
\<close>

theorem initialSighting_override_fresh:
  assumes "util_known_bots s i = Some r"
    and "bot_team (objects s r) \<noteq> tm \<or> bot_unit (objects s r) \<noteq> un"
  shows "findById i (initialSighting i tm un True s) =
           Some \<lparr>bot_id = i, bot_team = tm, bot_unit = un, bot_x = None, bot_y = None,
                 bot_posUpdateTurn = None, bot_damage = None\<rparr> \<and>
         initial_cb_calls (initialSighting i tm un True s) =
           initial_cb_calls s @
             [\<lparr>bot_id = i, bot_team = tm, bot_unit = un, bot_x = None, bot_y = None,
               bot_posUpdateTurn = None, bot_damage = None\<rparr>]"
  using assms
  by (auto simp: initialSighting_def wk_log_def findById_def install_bot_def new_bot_def Let_def)

theorem initialSighting_override_fresh_witness:
  "applyDamage 1 10 wk_positioned = Inr wk_damaged \<and>
   findById 1 wk_damaged =
     Some \<lparr>bot_id = 1, bot_team = 0, bot_unit = 0, bot_x = Some 3, bot_y = Some 4,
           bot_posUpdateTurn = Some 5, bot_damage = Some 10\<rparr> \<and>
   findById 1 (initialSighting 1 1 0 True wk_damaged) =
     Some \<lparr>bot_id = 1, bot_team = 1, bot_unit = 0, bot_x = None, bot_y = None,
           bot_posUpdateTurn = None, bot_damage = None\<rparr> \<and>
   initial_cb_calls (initialSighting 1 1 0 True wk_damaged) =
     [\<lparr>bot_id = 1, bot_team = 0, bot_unit = 0, bot_x = None, bot_y = None,
       bot_posUpdateTurn = None, bot_damage = None\<rparr>,
      \<lparr>bot_id = 1, bot_team = 1, bot_unit = 0, bot_x = None, bot_y = None,
       bot_posUpdateTurn = None, bot_damage = None\<rparr>]"
proof -
  note defs = wk_example_defs
  have k: "util_known_bots wk_damaged 1 = Some 0"
    and c: "bot_team (objects wk_damaged 0) \<noteq> 1 \<or> bot_unit (objects wk_damaged 0) \<noteq> 0"
    and cb: "initial_cb_calls wk_damaged = [new_bot 1 0 0]"
    by (simp_all add: defs)
  have d: "applyDamage 1 10 wk_positioned = Inr wk_damaged"
    by (simp add: applyDamage_def defs)
  have f: "findById 1 wk_damaged =
     Some \<lparr>bot_id = 1, bot_team = 0, bot_unit = 0, bot_x = Some 3, bot_y = Some 4,
           bot_posUpdateTurn = Some 5, bot_damage = Some 10\<rparr>"
    by (simp add: findById_def defs)
  show ?thesis
    using initialSighting_override_fresh [OF k c] d f cb by (simp add: new_bot_def)
qed

section \<open>Properties of the BitCodec\<close>

lemma toInt32_sint: "toInt32 (sint (w::32 word)) = w"
  by (simp add: toInt32_def)

lemma mask_word: "p < 32 \<Longrightarrow> toInt32 (js_shl 1 p - 1) = mask p"
  by (simp add: js_shl_def toInt32_def mask_eq_exp_minus_1)

lemma js_and_mask:
  assumes p: "p < 32"
  shows "js_and m (js_shl 1 p - 1) = uint (take_bit p (toInt32 m))"
proof -
  let ?u = "uint (take_bit p (toInt32 m))"
  have "?u < 2 ^ p"
    by (simp add: unsigned_take_bit_eq)
  moreover have "(2::int) ^ p \<le> 2 ^ 31"
    using p by (intro power_increasing) auto
  ultimately have "?u < 2 ^ 31" by linarith
  moreover have "- (2 ^ 31) \<le> ?u"
    by (rule order_trans [of _ 0]) simp_all
  ultimately have "signed_take_bit 31 ?u = ?u"
    by (rule signed_take_bit_int_eq_self [rotated])
  then show ?thesis
    by (simp add: js_and_def mask_word p sint_uint flip: take_bit_eq_mask)
qed

lemma sar_low:
  assumes "k + p \<le> 32" "p < 32"
  shows "take_bit k (toInt32 (js_sar m p)) = take_bit k (drop_bit p (toInt32 m))"
  using assms
  by (auto simp: js_sar_def toInt32_sint bit_simps intro!: bit_word_eqI split: if_splits)

lemma shl_or_word:
  "toInt32 (js_or (js_shl m p) c) = push_bit (p mod 32) (toInt32 m) OR toInt32 c"
  by (simp add: js_or_def js_shl_def toInt32_sint)

lemma decode_loop_acc: "decode_loop m ps acc = decode_loop m ps [] @ acc"
proof (induction ps arbitrary: m acc)
  case Nil
  show ?case by simp
next
  case (Cons p ps)
  show ?case
    using Cons.IH [of "js_sar m p" "js_and m (js_shl 1 p - 1) # acc"]
      Cons.IH [of "js_sar m p" "[js_and m (js_shl 1 p - 1)]"]
    by simp
qed

lemma decode_loop_low:
  assumes "sum_list ps \<le> 32" "\<forall>p\<in>set ps. p < 32"
    and "take_bit (sum_list ps) (toInt32 m) = take_bit (sum_list ps) (toInt32 m')"
  shows "decode_loop m ps acc = decode_loop m' ps acc"
  using assms
proof (induction ps arbitrary: m m' acc)
  case Nil
  show ?case by simp
next
  case (Cons p ps)
  have p: "p < 32" and le: "sum_list ps + p \<le> 32"
    using Cons.prems by auto
  have eq: "take_bit (p + sum_list ps) (toInt32 m) = take_bit (p + sum_list ps) (toInt32 m')"
    using Cons.prems by simp
  have "take_bit p (take_bit (p + sum_list ps) (toInt32 m)) =
        take_bit p (take_bit (p + sum_list ps) (toInt32 m'))"
    by (simp only: eq)
  then have lo: "take_bit p (toInt32 m) = take_bit p (toInt32 m')"
    by simp
  have "drop_bit p (take_bit (p + sum_list ps) (toInt32 m)) =
        drop_bit p (take_bit (p + sum_list ps) (toInt32 m'))"
    by (simp only: eq)
  then have hi: "take_bit (sum_list ps) (drop_bit p (toInt32 m)) =
                 take_bit (sum_list ps) (drop_bit p (toInt32 m'))"
    by (simp add: drop_bit_take_bit)
  have rec: "decode_loop (js_sar m p) ps acc' = decode_loop (js_sar m' p) ps acc'" for acc'
    using Cons.prems hi by (intro Cons.IH) (simp_all add: sar_low [OF le p])
  show ?case
    by (simp add: js_and_mask [OF p] lo rec)
qed


lemma sint_small:
  assumes "0 \<le> v" "v < 2 ^ 31"
  shows "sint (word_of_int v :: 32 word) = v"
proof -
  have "- (2 ^ 31) \<le> v"
    using assms(1) by (rule order_trans [rotated]) simp
  then have "signed_take_bit 31 v = v"
    using assms(2) by (rule signed_take_bit_int_eq_self)
  then show ?thesis
    by (simp add: sint_sbintrunc')
qed

lemma pow2_le: "p \<le> q \<Longrightarrow> (2::int) ^ p \<le> 2 ^ q"
  by (rule power_increasing) simp_all

lemma js_shl_1: 
  assumes p: "p \<le> 30"
  shows "js_shl 1 p = 2 ^ p"
proof -
  have "(2::int) ^ p < 2 ^ 31"
    using pow2_le [OF p] by simp
  then have "sint (word_of_int (2 ^ p) :: 32 word) = 2 ^ p"
    by (intro sint_small) simp_all
  then show ?thesis
    using p by (simp add: js_shl_def toInt32_def)
qed

lemma isSafeInteger_of_int:
  assumes "\<bar>v\<bar> \<le> 2 ^ 53 - 1"
  shows "isSafeInteger (of_int v)"
proof -
  have "(of_int \<bar>v\<bar> :: rat) \<le> of_int (2 ^ 53 - 1)"
    using assms by (simp only: of_int_le_iff)
  then show ?thesis
    by (simp add: isSafeInteger_def)
qed

lemma encode_loop_fits:
  "list_all2 fits vs ps \<Longrightarrow>
   encode_loop msg (map of_int vs) ps = Inr (foldl pack msg (zip vs ps))"
proof (induction vs ps arbitrary: msg rule: list_all2_induct)
  case Nil
  show ?case by simp
next
  case (Cons v vs p ps)
  have p: "p \<le> 30" and v: "0 \<le> v" "v < 2 ^ p"
    using Cons.hyps(1) by (simp_all add: fits_def)
  have "\<bar>v\<bar> \<le> 2 ^ 53 - 1"
    using v pow2_le [OF p] by simp
  then have safe: "isSafeInteger (of_int v)"
    by (rule isSafeInteger_of_int)
  have lt: "\<not> (of_int v :: rat) \<ge> of_int (js_shl 1 p)"
    using v by (simp add: js_shl_1 [OF p])
  show ?case
    using safe lt v Cons.IH by (simp add: pack_def)
qed


lemma bit_small:
  assumes "0 \<le> (v::int)" "v < 2 ^ p" "bit v n"
  shows "n < p"
proof -
  have "take_bit p v = v"
    using assms(1,2) by (rule take_bit_int_eq_self)
  then have "bit v n = bit (take_bit p v) n" by simp
  then show ?thesis
    using assms(3) by (simp add: bit_simps)
qed

lemma pack_word:
  assumes "p \<le> 30"
  shows "toInt32 (pack m (v, p)) = push_bit p (toInt32 m) OR word_of_int v"
proof -
  have "toInt32 (pack m (v, p)) = push_bit (p mod 32) (toInt32 m) OR toInt32 v"
    by (simp add: pack_def shl_or_word)
  moreover have "p mod 32 = p" using assms by simp
  ultimately show ?thesis by (simp add: toInt32_def)
qed

lemma fits_widths: "list_all2 fits vs ps \<Longrightarrow> \<forall>q\<in>set ps. q < 32"
  by (induction rule: list_all2_induct) (auto simp: fits_def)

lemma pack_low:
  assumes "fits v p"
  shows "js_and (pack m (v, p)) (js_shl 1 p - 1) = v"
proof -
  have p: "p \<le> 30" "p < 32" and v: "0 \<le> v" "v < 2 ^ p"
    using assms by (simp_all add: fits_def)
  have "take_bit p (push_bit p (toInt32 m) OR word_of_int v) = (word_of_int v :: 32 word)"
    by (rule bit_word_eqI) (auto simp: bit_simps dest: bit_small [OF v])
  moreover have "v < 2 ^ 32"
    using v(2) pow2_le [of p 32] p by simp
  then have "uint (word_of_int v :: 32 word) = v"
    using v(1) by (simp add: uint_word_of_int_eq take_bit_int_eq_self)
  ultimately show ?thesis
    by (simp add: js_and_mask [OF p(2)] pack_word [OF p(1)])
qed

lemma pack_high:
  assumes "fits v p" "k + p \<le> 32"
  shows "take_bit k (toInt32 (js_sar (pack m (v, p)) p)) = take_bit k (toInt32 m)"
proof -
  have p: "p \<le> 30" "p < 32" and v: "0 \<le> v" "v < 2 ^ p"
    using assms by (simp_all add: fits_def)
  have "take_bit k (drop_bit p (push_bit p (toInt32 m) OR word_of_int v)) =
        take_bit k (toInt32 m)"
    using assms(2)
    by (intro bit_word_eqI) (auto simp: bit_simps dest: bit_small [OF v])
  then show ?thesis
    by (simp add: sar_low [OF assms(2) p(2)] pack_word [OF p(1)])
qed

lemma pack_width:
  assumes "fits v p" "take_bit k (toInt32 m) = toInt32 m"
  shows "take_bit (k + p) (toInt32 (pack m (v, p))) = toInt32 (pack m (v, p))"
proof -
  have p: "p \<le> 30" "p < 32" and v: "0 \<le> v" "v < 2 ^ p"
    using assms by (simp_all add: fits_def)
  have b: "bit (toInt32 m) n \<Longrightarrow> n < k" for n
  proof -
    assume "bit (toInt32 m) n"
    then have "bit (take_bit k (toInt32 m)) n" by (simp only: assms(2))
    then show "n < k" by (simp add: bit_simps)
  qed
  have "take_bit (k + p) (push_bit p (toInt32 m) OR word_of_int v) =
        push_bit p (toInt32 m) OR (word_of_int v :: 32 word)"
    by (intro bit_word_eqI) (auto simp: bit_simps dest: bit_small [OF v] b)
  then show ?thesis
    by (simp add: pack_word [OF p(1)])
qed

lemma roundtrip_aux:
  "list_all2 fits vs ps \<longrightarrow> sum_list ps \<le> 32 \<longrightarrow>
     decode_loop (foldl pack 0 (zip vs ps)) (rev ps) [] = vs \<and>
     take_bit (sum_list ps) (toInt32 (foldl pack 0 (zip vs ps))) =
       toInt32 (foldl pack 0 (zip vs ps))"
proof (induction vs ps rule: rev_induct2)
  case 1
  show ?case by (simp add: toInt32_def)
next
  case (2 x xs)
  show ?case by simp
next
  case (3 y ys)
  show ?case by simp
next
  case (4 v vs p ps)
  show ?case
  proof (intro impI)
    assume all: "list_all2 fits (vs @ [v]) (ps @ [p])" and sum: "sum_list (ps @ [p]) \<le> 32"
    have len: "length vs = length ps"
      using all by (auto dest: list_all2_lengthD)
    have fs: "list_all2 fits vs ps" and f: "fits v p"
      using all len by (simp_all add: list_all2_append)
    have le: "sum_list ps + p \<le> 32" and le': "sum_list ps \<le> 32"
      using sum by simp_all
    have ltp: "\<forall>q\<in>set (rev ps). q < 32"
      using fits_widths [OF fs] by simp
    define m where "m = foldl pack 0 (zip vs ps)"
    have ih1: "decode_loop m (rev ps) [] = vs"
      and ih2: "take_bit (sum_list ps) (toInt32 m) = toInt32 m"
      using 4 fs le' by (simp_all add: m_def)
    have fold: "foldl pack 0 (zip (vs @ [v]) (ps @ [p])) = pack m (v, p)"
      using len by (simp add: m_def)
    have "decode_loop (pack m (v, p)) (rev (ps @ [p])) [] =
          decode_loop (js_sar (pack m (v, p)) p) (rev ps) [v]"
      by (simp add: pack_low [OF f])
    also have "\<dots> = decode_loop m (rev ps) [v]"
      using le' ltp pack_high [OF f le, of m]
      by (intro decode_loop_low) simp_all
    also have "\<dots> = vs @ [v]"
      using decode_loop_acc [of m "rev ps" "[v]"] ih1 by simp
    finally have d: "decode_loop (pack m (v, p)) (rev (ps @ [p])) [] = vs @ [v]" .
    show "decode_loop (foldl pack 0 (zip (vs @ [v]) (ps @ [p]))) (rev (ps @ [p])) [] = vs @ [v] \<and>
          take_bit (sum_list (ps @ [p])) (toInt32 (foldl pack 0 (zip (vs @ [v]) (ps @ [p])))) =
            toInt32 (foldl pack 0 (zip (vs @ [v]) (ps @ [p])))"
      using d pack_width [OF f ih2] by (simp add: fold)
  qed
qed


text \<open>
  C1, as the code has it. The round trip holds on 32-bit messages: for segments of at most 30
  bits each whose widths sum to at most 32, and values within their widths, \<^verbatim>\<open>encodeBits\<close>
  returns a message and \<^verbatim>\<open>decodeBits\<close> on it with the same pattern returns the values.
\<close>

theorem encodeBits_decodeBits_roundtrip:
  assumes "list_all2 (\<lambda>v p. 0 \<le> v \<and> v < 2 ^ p \<and> p \<le> 30) values widths"
    and "sum_list widths \<le> 32"
  shows "\<exists>msg. encodeBits (map of_int values) widths = Inr msg \<and> decodeBits msg widths = values"
proof -
  have f: "list_all2 fits values widths"
    using assms(1) by (simp add: fits_def [abs_def])
  then have "length values = length widths"
    by (rule list_all2_lengthD)
  then have "encodeBits (map of_int values) widths = Inr (foldl pack 0 (zip values widths))"
    by (simp add: encodeBits_def encode_loop_fits [OF f])
  moreover have "decodeBits (foldl pack 0 (zip values widths)) widths = values"
    using roundtrip_aux [of "values" widths] f assms(2) by (simp add: decodeBits_def)
  ultimately show ?thesis by blast
qed

lemmas codec_eval = encodeBits_def decodeBits_def isSafeInteger_def js_shl_def js_sar_def
  js_and_def js_or_def toInt32_def

theorem encodeBits_decodeBits_roundtrip_witness:
  "list_all2 (\<lambda>v p. 0 \<le> v \<and> v < 2 ^ p \<and> p \<le> 30) [0, 2, 7 :: int] [1, 2, 3 :: nat] \<and>
   sum_list [1, 2, 3 :: nat] \<le> 32 \<and>
   encodeBits (map of_int [0, 2, 7]) [1, 2, 3] = Inr 23 \<and>
   decodeBits 23 [1, 2, 3] = [0, 2, 7] \<and>
   encodeBits (map of_int [65535, 65535]) [16, 16] = Inr (- 1) \<and>
   decodeBits (- 1) [16, 16] = [65535, 65535]"
proof -
  have a: "list_all2 (\<lambda>v p. 0 \<le> v \<and> v < 2 ^ p \<and> p \<le> 30) [0, 2, 7 :: int] [1, 2, 3 :: nat]"
    and b: "sum_list [1, 2, 3 :: nat] \<le> 32"
    by simp_all
  have e: "encodeBits (map of_int [0, 2, 7]) [1, 2, 3] = Inr 23"
    and e': "encodeBits (map of_int [65535, 65535]) [16, 16] = Inr (- 1)"
    and d': "decodeBits (- 1) [16, 16] = [65535, 65535]"
    by (simp_all add: codec_eval)
  from encodeBits_decodeBits_roundtrip [OF a b] e
  have "decodeBits 23 [1, 2, 3] = [0, 2, 7]"
    by simp
  then show ?thesis
    using a b e e' d' by blast
qed

text \<open>
  The claim C1 as stated fails. The values \<open>[1, 2, 3]\<close> fit the widths \<open>[8, 16, 16]\<close>, but the
  40 bits do not fit a 32-bit message: the first segment is shifted out and the decoded values
  are \<open>[0, 2, 3]\<close>. The value 5 fits 31 bits, but \<^verbatim>\<open>1 << 31\<close> is negative and the call raises.
\<close>

theorem encodeBits_decodeBits_roundtrip_counterexample:
  "encodeBits (map of_int [1, 2, 3]) [8, 16, 16] = Inr 131075 \<and>
   decodeBits 131075 [8, 16, 16] = [0, 2, 3] \<and>
   encodeBits (map of_int [5]) [31] = Inl (ExceedsMaximum 5 31)"
  by (simp add: codec_eval)

lemma js_shl_1_le: "js_shl 1 p \<le> 2 ^ p"
proof (cases "p mod 32 \<le> 30")
  case True
  have "js_shl 1 p = js_shl 1 (p mod 32)"
    by (simp add: js_shl_def)
  also have "\<dots> = 2 ^ (p mod 32)"
    using True by (rule js_shl_1)
  also have "\<dots> \<le> 2 ^ p"
    by (rule pow2_le) simp
  finally show ?thesis .
next
  case False
  then have "p mod 32 = 31"
    using mod_less_divisor [of 32 p] by linarith
  then have "js_shl 1 p = - 2147483648"
    by (simp add: js_shl_def toInt32_def)
  moreover have "(0::int) \<le> 2 ^ p" by simp
  ultimately show ?thesis by linarith
qed

lemma not_int_not_safe: "c \<notin> \<int> \<Longrightarrow> \<not> isSafeInteger c"
  unfolding isSafeInteger_def by (metis Ints_of_int)

lemma encode_loop_rejects:
  assumes "length cs = length ps"
    and "\<exists>i<length cs. cs ! i < 0 \<or> cs ! i \<notin> \<int> \<or> cs ! i \<ge> 2 ^ (ps ! i)"
  shows "\<exists>e. encode_loop msg cs ps = Inl e"
  using assms
proof (induction cs ps arbitrary: msg rule: list_induct2)
  case Nil
  then show ?case by simp
next
  case (Cons c cs p ps)
  from Cons.prems obtain i where i: "i < Suc (length cs)"
    and bad: "(c # cs) ! i < 0 \<or> (c # cs) ! i \<notin> \<int> \<or> (c # cs) ! i \<ge> 2 ^ ((p # ps) ! i)"
    by auto
  show ?case
  proof (cases i)
    case 0
    have "c \<ge> 2 ^ p \<Longrightarrow> c \<ge> of_int (js_shl 1 p)"
    proof -
      assume "c \<ge> 2 ^ p"
      moreover have "(of_int (js_shl 1 p) :: rat) \<le> of_int (2 ^ p)"
        using js_shl_1_le [of p] by (simp only: of_int_le_iff)
      ultimately show ?thesis by (simp only: of_int_power of_int_numeral)
    qed
    then show ?thesis
      using bad 0 not_int_not_safe [of c] by auto
  next
    case (Suc j)
    then have "\<exists>i<length cs. cs ! i < 0 \<or> cs ! i \<notin> \<int> \<or> cs ! i \<ge> 2 ^ (ps ! i)"
      using i bad by auto
    then have "\<exists>e. encode_loop msg' cs ps = Inl e" for msg'
      by (rule Cons.IH)
    then show ?thesis by auto
  qed
qed

text \<open>
  C8. \<^verbatim>\<open>encodeBits\<close> raises an error whenever the two arrays differ in length or some value
  is negative, is not an integer, or is at least \<open>2 ^ width\<close> for its width; in particular
  \<^verbatim>\<open>encode([3], [1])\<close> and \<^verbatim>\<open>encode([-1], [4])\<close> raise.
\<close>

theorem encodeBits_rejects:
  assumes "length contents \<noteq> length pattern \<or>
           (\<exists>i<length contents. contents ! i < 0 \<or> contents ! i \<notin> \<int> \<or>
                                 contents ! i \<ge> 2 ^ (pattern ! i))"
  shows "\<exists>e. encodeBits contents pattern = Inl e"
proof (cases "length contents = length pattern")
  case True
  then show ?thesis
    using assms encode_loop_rejects [OF True, of 0] by (simp add: encodeBits_def)
next
  case False
  then show ?thesis by (simp add: encodeBits_def)
qed

theorem encodeBits_rejects_witness:
  "(3::rat) \<ge> 2 ^ 1 \<and> encodeBits [3] [1] = Inl (ExceedsMaximum 3 1) \<and>
   (- 1::rat) < 0 \<and> encodeBits [- 1] [4] = Inl (NegativeValue (- 1)) \<and>
   encodeBits [1 / 2] [4] = Inl (NotASafeInteger (1 / 2)) \<and>
   encodeBits [1, 2] [4] = Inl LengthsMismatch"
proof -
  have "\<exists>e. encodeBits [3] [1] = Inl e"
    by (rule encodeBits_rejects) simp
  moreover have "\<exists>e. encodeBits [- 1] [4] = Inl e"
    by (rule encodeBits_rejects) simp
  moreover have "\<exists>e. encodeBits [1, 2] [4] = Inl e"
    by (rule encodeBits_rejects) simp
  moreover have "encodeBits [1 / 2] [4] = Inl (NotASafeInteger (1 / 2))"
    by code_simp
  ultimately show ?thesis
    by (simp add: codec_eval)
qed


section \<open>Properties of the PriorityQueue\<close>

lemma consistent_refl: "consistent cmp \<Longrightarrow> cmp a a \<le> 0"
  unfolding consistent_def by (metis linorder_le_cases)

lemma consistent_flip: "consistent cmp \<Longrightarrow> 0 \<le> cmp a b \<Longrightarrow> cmp b a \<le> 0"
  unfolding consistent_def by blast

lemma consistent_trans:
  "consistent cmp \<Longrightarrow> cmp a b \<le> 0 \<Longrightarrow> cmp b c \<le> 0 \<Longrightarrow> cmp a c \<le> 0"
  unfolding consistent_def by blast

lemma mset_swap_update:
  "i < length c \<Longrightarrow> j < length c \<Longrightarrow> mset (c[i := c ! j, j := c ! i]) = mset c"
  by (metis mset_swap)

lemma mset_sift_up: "k < length c \<Longrightarrow> mset (sift_up cmp c k) = mset c"
proof (induction cmp c k rule: sift_up.induct)
  case (1 cmp c k)
  show ?case
  proof (cases "k > 0 \<and> \<not> cmp (c ! k) (c ! ((k - 1) div 2)) \<ge> 0")
    case True
    let ?p = "(k - 1) div 2"
    have p: "?p < length c" using "1.prems" by simp
    have "mset (sift_up cmp (c[k := c ! ?p, ?p := c ! k]) ?p) = mset (c[k := c ! ?p, ?p := c ! k])"
      using True p by (intro "1.IH") simp_all
    then show ?thesis
      using True "1.prems" p
      by (subst sift_up.simps) (simp add: Let_def mset_swap_update)
  next
    case False
    then show ?thesis
      by (subst sift_up.simps) (auto simp: Let_def)
  qed
qed

lemma length_sift_up: "length (sift_up cmp c k) = length c"
proof (induction cmp c k rule: sift_up.induct)
  case (1 cmp c k)
  show ?case
    using "1.IH" by (subst sift_up.simps) (simp add: Let_def)
qed

lemma up_inv_swap:
  assumes cons: "consistent cmp" and inv: "up_inv cmp c k" and k: "0 < k"
    and lt: "cmp (c ! k) (c ! ((k - 1) div 2)) < 0"
  shows "up_inv cmp (c[k := c ! ((k - 1) div 2), (k - 1) div 2 := c ! k]) ((k - 1) div 2)"
proof -
  let ?p = "(k - 1) div 2"
  let ?c = "c[k := c ! ?p, ?p := c ! k]"
  have kl: "k < length c"
    and par: "\<And>i. 0 < i \<Longrightarrow> i < length c \<Longrightarrow> i \<noteq> k \<Longrightarrow> cmp (c ! ((i - 1) div 2)) (c ! i) \<le> 0"
    and gp: "\<And>i. 0 < i \<Longrightarrow> i < length c \<Longrightarrow> (i - 1) div 2 = k \<Longrightarrow>
               cmp (c ! ?p) (c ! i) \<le> 0"
    using inv k unfolding up_inv_def by blast+
  have pk: "?p < k" using k by simp
  have pl: "?p < length c" using pk kl by simp
  have at_p: "?c ! ?p = c ! k" using pl by simp
  have at_k: "?c ! k = c ! ?p" using pk kl by simp
  have other: "\<And>j. j \<noteq> k \<Longrightarrow> j \<noteq> ?p \<Longrightarrow> ?c ! j = c ! j" by simp
  have kp: "cmp (c ! k) (c ! ?p) \<le> 0" using lt by simp
  have c2: "cmp (?c ! ((i - 1) div 2)) (?c ! i) \<le> 0"
    if i: "0 < i" "i < length ?c" "i \<noteq> ?p" for i
  proof (cases "i = k")
    case True
    then show ?thesis using at_p at_k kp by simp
  next
    case False
    have il: "i < length c" using i(2) by simp
    have ci: "?c ! i = c ! i" using False i(3) by (rule other)
    have base: "cmp (c ! ((i - 1) div 2)) (c ! i) \<le> 0"
      using i(1) il False by (rule par)
    consider "(i - 1) div 2 = k" | "(i - 1) div 2 = ?p" | "(i - 1) div 2 \<noteq> k" "(i - 1) div 2 \<noteq> ?p"
      by blast
    then show ?thesis
    proof cases
      case 1
      then show ?thesis using gp [OF i(1) il 1] at_k ci by simp
    next
      case 2
      have "cmp (c ! k) (c ! i) \<le> 0"
        using consistent_trans [OF cons kp] base 2 by simp
      then show ?thesis using 2 at_p ci by simp
    next
      case 3
      then show ?thesis using other [OF 3] base ci by simp
    qed
  qed
  have c3: "cmp (?c ! ((?p - 1) div 2)) (?c ! i) \<le> 0"
    if i: "0 < i" "i < length ?c" "(i - 1) div 2 = ?p" "0 < ?p" for i
  proof -
    let ?pp = "(?p - 1) div 2"
    have il: "i < length c" using i(2) by simp
    have "?pp < ?p" using i(4) by simp
    then have cpp: "?c ! ?pp = c ! ?pp" using pk by (intro other) simp_all
    have top: "cmp (c ! ?pp) (c ! ?p) \<le> 0"
      using i(4) pl pk by (intro par) simp_all
    show ?thesis
    proof (cases "i = k")
      case True
      then show ?thesis using at_k cpp top by simp
    next
      case False
      have ip: "i \<noteq> ?p" using i(1,3) by auto
      have "cmp (c ! ?p) (c ! i) \<le> 0"
        using par [OF i(1) il False] i(3) by simp
      then have "cmp (c ! ?pp) (c ! i) \<le> 0"
        using consistent_trans [OF cons top] by blast
      then show ?thesis using other [OF False ip] cpp by simp
    qed
  qed
  show ?thesis
    unfolding up_inv_def using pl c2 c3 by simp
qed

lemma heap_sift_up:
  "consistent cmp \<Longrightarrow> up_inv cmp c k \<Longrightarrow> heap cmp (sift_up cmp c k)"
proof (induction cmp c k rule: sift_up.induct)
  case (1 cmp c k)
  let ?p = "(k - 1) div 2"
  consider "k = 0" | "0 < k" "0 \<le> cmp (c ! k) (c ! ?p)" | "0 < k" "cmp (c ! k) (c ! ?p) < 0"
    by fastforce
  then show ?case
  proof cases
    case 1
    then have "heap cmp c"
      using "1.prems"(2) unfolding up_inv_def heap_def by simp
    then show ?thesis using 1 by (subst sift_up.simps) simp
  next
    case 2
    have "cmp (c ! ?p) (c ! k) \<le> 0"
      using consistent_flip [OF "1.prems"(1) 2(2)] .
    then have "heap cmp c"
      using "1.prems"(2) unfolding up_inv_def heap_def by metis
    then show ?thesis using 2 by (subst sift_up.simps) (simp add: Let_def)
  next
    case 3
    have "up_inv cmp (c[k := c ! ?p, ?p := c ! k]) ?p"
      using "1.prems" 3 by (intro up_inv_swap)
    then have "heap cmp (sift_up cmp (c[k := c ! ?p, ?p := c ! k]) ?p)"
      using 3 "1.prems"(1) by (intro "1.IH") simp_all
    then show ?thesis using 3 by (subst sift_up.simps) (simp add: Let_def)
  qed
qed

lemma heap_enqueue:
  assumes "consistent (comparator q)" "heap (comparator q) (content q)"
  shows "heap (comparator q) (content (enqueue x q))"
proof -
  let ?c = "content q" and ?n = "length (content q)"
  have a: "comparator q ((?c @ [x]) ! ((i - 1) div 2)) ((?c @ [x]) ! i) \<le> 0"
    if "0 < i" "i < length (?c @ [x])" "i \<noteq> ?n" for i
  proof -
    have "i < ?n" using that by simp
    moreover have "(i - 1) div 2 < ?n" using \<open>i < ?n\<close> by simp
    ultimately show ?thesis
      using assms(2) that(1) unfolding heap_def by (simp add: nth_append)
  qed
  have b: "\<not> (i < length (?c @ [x]) \<and> (i - 1) div 2 = ?n \<and> 0 < i)" for i
    by auto
  have "up_inv (comparator q) (?c @ [x]) ?n"
    unfolding up_inv_def using a b by auto
  then show ?thesis
    using assms(1) by (simp add: enqueue_def Let_def heap_sift_up)
qed

lemma mset_enqueue: "mset (content (enqueue x q)) = add_mset x (mset (content q))"
  by (simp add: enqueue_def Let_def mset_sift_up)

lemma comparator_enqueue: "comparator (enqueue x q) = comparator q"
  by (simp add: enqueue_def Let_def)

lemma child_cases:
  "0 < i \<Longrightarrow> (i - 1) div 2 = k \<longleftrightarrow> i = k * 2 + 1 \<or> i = k * 2 + 2" for i k :: nat
  by presburger

lemma smaller_child_props:
  assumes "k * 2 + 1 < length c"
  shows "smaller_child cmp c k < length c" "k < smaller_child cmp c k"
    "(smaller_child cmp c k - 1) div 2 = k" "0 < smaller_child cmp c k"
  using assms by (auto simp: smaller_child_def)

lemma smaller_child_min:
  assumes cons: "consistent cmp" and i: "0 < i" "i < length c" "(i - 1) div 2 = k"
  shows "cmp (c ! smaller_child cmp c k) (c ! i) \<le> 0"
proof -
  from i(3) child_cases [OF i(1), of k] have "i = k * 2 + 1 \<or> i = k * 2 + 2"
    by blast
  then show ?thesis
  proof
    assume l: "i = k * 2 + 1"
    show ?thesis
    proof (cases "k * 2 + 2 < length c \<and> cmp (c ! (k * 2 + 2)) (c ! (k * 2 + 1)) < 0")
      case True
      then show ?thesis using l by (simp add: smaller_child_def)
    next
      case False
      then show ?thesis using l consistent_refl [OF cons] by (simp add: smaller_child_def)
    qed
  next
    assume r: "i = k * 2 + 2"
    show ?thesis
    proof (cases "cmp (c ! (k * 2 + 2)) (c ! (k * 2 + 1)) < 0")
      case True
      then show ?thesis using r i(2) consistent_refl [OF cons] by (simp add: smaller_child_def)
    next
      case False
      then have "cmp (c ! (k * 2 + 1)) (c ! (k * 2 + 2)) \<le> 0"
        by (intro consistent_flip [OF cons]) simp
      then show ?thesis using r False by (simp add: smaller_child_def)
    qed
  qed
qed

lemma down_inv_swap:
  assumes cons: "consistent cmp" and inv: "down_inv cmp c k"
    and l: "k * 2 + 1 < length c"
    and gt: "0 < cmp (c ! k) (c ! smaller_child cmp c k)"
  shows "down_inv cmp (c[k := c ! smaller_child cmp c k, smaller_child cmp c k := c ! k])
           (smaller_child cmp c k)"
proof -
  let ?m = "smaller_child cmp c k"
  let ?c = "c[k := c ! ?m, ?m := c ! k]"
  note m = smaller_child_props [OF l, of cmp]
  have par: "\<And>i. 0 < i \<Longrightarrow> i < length c \<Longrightarrow> (i - 1) div 2 \<noteq> k \<Longrightarrow>
               cmp (c ! ((i - 1) div 2)) (c ! i) \<le> 0"
    and gp: "\<And>i. 0 < i \<Longrightarrow> i < length c \<Longrightarrow> (i - 1) div 2 = k \<Longrightarrow> 0 < k \<Longrightarrow>
               cmp (c ! ((k - 1) div 2)) (c ! i) \<le> 0"
    using inv unfolding down_inv_def by blast+
  have kl: "k < length c" using l by simp
  have at_m: "?c ! ?m = c ! k" using m(1) by simp
  have at_k: "?c ! k = c ! ?m" using m(2) kl by simp
  have other: "\<And>j. j \<noteq> k \<Longrightarrow> j \<noteq> ?m \<Longrightarrow> ?c ! j = c ! j" by simp
  have mk: "cmp (c ! ?m) (c ! k) \<le> 0"
    using gt by (intro consistent_flip [OF cons]) simp
  have c1: "cmp (?c ! ((i - 1) div 2)) (?c ! i) \<le> 0"
    if i: "0 < i" "i < length ?c" "(i - 1) div 2 \<noteq> ?m" for i
  proof -
    have il: "i < length c" using i(2) by simp
    consider "i = ?m" | "i = k" | "i \<noteq> ?m" "i \<noteq> k" "(i - 1) div 2 = k"
      | "i \<noteq> ?m" "i \<noteq> k" "(i - 1) div 2 \<noteq> k"
      by blast
    then show ?thesis
    proof cases
      case 1
      then show ?thesis using m(3) at_m at_k mk by simp
    next
      case 2
      then have k0: "0 < k" using i(1) by simp
      have pk: "(k - 1) div 2 < k" using k0 by simp
      then have "?c ! ((k - 1) div 2) = c ! ((k - 1) div 2)"
        using m(2) by (intro other) simp_all
      moreover have "cmp (c ! ((k - 1) div 2)) (c ! ?m) \<le> 0"
        using m k0 by (intro gp) simp_all
      ultimately show ?thesis using 2 at_k by simp
    next
      case 3
      have "cmp (c ! ?m) (c ! i) \<le> 0"
        using cons i(1) il 3(3) by (rule smaller_child_min)
      then show ?thesis using 3 at_k other [OF 3(2,1)] by simp
    next
      case 4
      have "?c ! ((i - 1) div 2) = c ! ((i - 1) div 2)"
        using 4(3) i(3) by (intro other)
      then show ?thesis using par [OF i(1) il 4(3)] other [OF 4(2,1)] by simp
    qed
  qed
  have c2: "cmp (?c ! ((?m - 1) div 2)) (?c ! i) \<le> 0"
    if i: "0 < i" "i < length ?c" "(i - 1) div 2 = ?m" for i
  proof -
    have il: "i < length c" using i(2) by simp
    have im: "?m < i" using i(1,3) by auto
    then have ik: "i \<noteq> k" "i \<noteq> ?m" using m(2) by simp_all
    have "(i - 1) div 2 \<noteq> k" using i(3) m(2) by simp
    then have "cmp (c ! ?m) (c ! i) \<le> 0"
      using par [OF i(1) il] i(3) by simp
    then show ?thesis using m(3) at_k other [OF ik] by simp
  qed
  show ?thesis
    unfolding down_inv_def using c1 c2 by blast
qed

lemma sift_down_unfold:
  assumes "lastIndex = int (length c) - 1"
  shows "sift_down cmp lastIndex c k =
     (if \<not> k * 2 + 1 < length c then c
      else if cmp (c ! k) (c ! smaller_child cmp c k) \<le> 0 then c
      else sift_down cmp lastIndex
             (c[k := c ! smaller_child cmp c k, smaller_child cmp c k := c ! k])
             (smaller_child cmp c k))"
proof -
  have last: "\<And>j. int j \<le> lastIndex \<longleftrightarrow> j < length c" "\<And>j. int j > lastIndex \<longleftrightarrow> \<not> j < length c"
    using assms by auto
  show ?thesis
    by (subst sift_down.simps) (simp add: Let_def smaller_child_def last del: One_nat_def)
qed

lemma heap_sift_down:
  assumes cons: "consistent cmp" and last: "lastIndex = int n - 1"
  shows "down_inv cmp c k \<Longrightarrow> length c = n \<Longrightarrow> heap cmp (sift_down cmp lastIndex c k)"
proof (induction "n - k" arbitrary: c k rule: less_induct)
  case less
  let ?m = "smaller_child cmp c k"
  have l: "lastIndex = int (length c) - 1" using last less.prems(2) by simp
  have par: "\<And>i. 0 < i \<Longrightarrow> i < length c \<Longrightarrow> (i - 1) div 2 \<noteq> k \<Longrightarrow>
               cmp (c ! ((i - 1) div 2)) (c ! i) \<le> 0"
    using less.prems(1) unfolding down_inv_def by blast
  consider "\<not> k * 2 + 1 < length c"
    | "k * 2 + 1 < length c" "cmp (c ! k) (c ! ?m) \<le> 0"
    | "k * 2 + 1 < length c" "0 < cmp (c ! k) (c ! ?m)"
    by fastforce
  then show ?case
  proof cases
    case 1
    have "heap cmp c"
      unfolding heap_def
    proof (intro allI impI)
      fix i assume i: "0 < i \<and> i < length c"
      then have "(i - 1) div 2 \<noteq> k" using 1 by (auto simp: child_cases)
      then show "cmp (c ! ((i - 1) div 2)) (c ! i) \<le> 0" using par i by simp
    qed
    then show ?thesis
      using 1 by (simp add: sift_down_unfold [OF l])
  next
    case 2
    have "heap cmp c"
      unfolding heap_def
    proof (intro allI impI)
      fix i assume i: "0 < i \<and> i < length c"
      show "cmp (c ! ((i - 1) div 2)) (c ! i) \<le> 0"
      proof (cases "(i - 1) div 2 = k")
        case True
        have "cmp (c ! ?m) (c ! i) \<le> 0"
          using cons i True by (intro smaller_child_min) simp_all
        then show ?thesis
          using consistent_trans [OF cons 2(2)] True by simp
      next
        case False
        then show ?thesis using par i by simp
      qed
    qed
    then show ?thesis
      using 2 by (simp add: sift_down_unfold [OF l])
  next
    case 3
    let ?c = "c[k := c ! ?m, ?m := c ! k]"
    note m = smaller_child_props [OF 3(1), of cmp]
    have "down_inv cmp ?c ?m"
      using cons less.prems(1) 3 by (rule down_inv_swap)
    moreover have "n - ?m < n - k"
      using m less.prems(2) by simp
    ultimately have "heap cmp (sift_down cmp lastIndex ?c ?m)"
      using less.prems(2) by (intro less.hyps) simp_all
    then show ?thesis
      using 3 by (simp add: sift_down_unfold [OF l])
  qed
qed

lemma mset_sift_down:
  assumes last: "lastIndex = int n - 1"
  shows "length c = n \<Longrightarrow> mset (sift_down cmp lastIndex c k) = mset c"
proof (induction "n - k" arbitrary: c k rule: less_induct)
  case less
  let ?m = "smaller_child cmp c k"
  have l: "lastIndex = int (length c) - 1" using last less.prems by simp
  show ?case
  proof (cases "k * 2 + 1 < length c \<and> 0 < cmp (c ! k) (c ! ?m)")
    case True
    let ?c = "c[k := c ! ?m, ?m := c ! k]"
    have kl: "k * 2 + 1 < length c" using True by simp
    note m = smaller_child_props [OF kl, of cmp]
    have "n - ?m < n - k"
      using m less.prems by simp
    then have "mset (sift_down cmp lastIndex ?c ?m) = mset ?c"
      using less.prems by (intro less.hyps) simp_all
    moreover have "mset ?c = mset c"
      using kl m by (intro mset_swap_update) simp_all
    ultimately show ?thesis
      using True by (simp add: sift_down_unfold [OF l])
  next
    case False
    then show ?thesis
      by (auto simp: sift_down_unfold [OF l])
  qed
qed

lemma heap_root_min:
  assumes cons: "consistent cmp" and h: "heap cmp c"
  shows "i < length c \<Longrightarrow> cmp (c ! 0) (c ! i) \<le> 0"
proof (induction i rule: less_induct)
  case (less i)
  show ?case
  proof (cases "i = 0")
    case True
    then show ?thesis using consistent_refl [OF cons] by simp
  next
    case False
    then have "(i - 1) div 2 < i" by simp
    then have "cmp (c ! 0) (c ! ((i - 1) div 2)) \<le> 0"
      using less.prems by (intro less.IH) simp_all
    moreover have "cmp (c ! ((i - 1) div 2)) (c ! i) \<le> 0"
      using h False less.prems unfolding heap_def by simp
    ultimately show ?thesis
      by (rule consistent_trans [OF cons])
  qed
qed

lemma mset_butlast_update:
  assumes "c \<noteq> []"
  shows "add_mset (c ! 0) (mset (butlast (c[0 := c ! (length c - 1)]))) = mset c"
proof (cases c)
  case Nil
  then show ?thesis using assms by simp
next
  case (Cons x xs)
  show ?thesis
  proof (cases "xs = []")
    case True
    then show ?thesis using Cons by simp
  next
    case False
    then have "xs ! (length xs - 1) = last xs"
      by (simp add: last_conv_nth)
    moreover have "add_mset (last xs) (mset (butlast xs)) = mset xs"
      using False by (metis append_butlast_last_id mset.simps(2) mset_append union_mset_add_mset_right add.right_neutral mset.simps(1))
    ultimately show ?thesis
      using Cons False by (simp add: nth_Cons')
  qed
qed

lemma down_inv_root:
  assumes "heap cmp c" "c \<noteq> []"
  shows "down_inv cmp (butlast (c[0 := c ! (length c - 1)])) 0"
proof -
  let ?c = "butlast (c[0 := c ! (length c - 1)])"
  have "cmp (?c ! ((i - 1) div 2)) (?c ! i) \<le> 0"
    if i: "0 < i" "i < length ?c" "(i - 1) div 2 \<noteq> 0" for i
  proof -
    have il: "i < length c - 1" using i(2) by simp
    then have "(i - 1) div 2 < length c - 1" by simp
    then have "?c ! ((i - 1) div 2) = c ! ((i - 1) div 2)" "?c ! i = c ! i"
      using i il by (simp_all add: nth_butlast)
    then show ?thesis
      using assms(1) i(1) il unfolding heap_def by simp
  qed
  then show ?thesis
    unfolding down_inv_def by blast
qed

lemma dequeue_nonempty:
  assumes cons: "consistent (comparator q)" and h: "heap (comparator q) (content q)"
    and ne: "content q \<noteq> []"
  shows "\<exists>q'. dequeue q = Inr (content q ! 0, q') \<and> comparator q' = comparator q \<and>
               heap (comparator q) (content q') \<and>
               add_mset (content q ! 0) (mset (content q')) = mset (content q) \<and>
               (\<forall>y\<in>set (content q). comparator q (content q ! 0) y \<le> 0)"
proof -
  let ?c = "content q"
  let ?c1 = "butlast (?c[0 := ?c ! (length ?c - 1)])"
  let ?last = "int (length ?c) - 1 - 1"
  let ?q = "q\<lparr>content := sift_down (comparator q) ?last ?c1 0\<rparr>"
  have idx: "nat (int (length ?c) - 1) = length ?c - 1" by simp
  have d: "dequeue q = Inr (?c ! 0, ?q)"
    using ne by (simp add: dequeue_def Let_def idx)
  have l: "?last = int (length ?c1) - 1" using ne by (cases "content q") simp_all
  have hp: "heap (comparator q) (content ?q)"
    using heap_sift_down [OF cons l down_inv_root [OF h ne]] by simp
  have ms: "add_mset (?c ! 0) (mset (content ?q)) = mset ?c"
    using mset_sift_down [OF l, of ?c1 "comparator q" 0] mset_butlast_update [OF ne] by simp
  have mn: "\<forall>y\<in>set ?c. comparator q (?c ! 0) y \<le> 0"
    using heap_root_min [OF cons h] by (auto simp: in_set_conv_nth)
  show ?thesis
    using d hp ms mn by (intro exI [of _ ?q]) simp
qed

lemma dequeue_empty: "content q = [] \<Longrightarrow> dequeue q = Inl EmptyQueue"
  by (simp add: dequeue_def)

lemma run_ops_heap:
  assumes cons: "consistent cmp"
  shows "run_ops ops q = Inr (out, q') \<Longrightarrow> comparator q = cmp \<Longrightarrow> heap cmp (content q) \<Longrightarrow>
         comparator q' = cmp \<and> heap cmp (content q')"
proof (induction ops q arbitrary: out rule: run_ops.induct)
  case (1 q)
  then show ?case by simp
next
  case (2 x ops q)
  have "comparator (enqueue x q) = cmp" "heap cmp (content (enqueue x q))"
    using heap_enqueue [of q x] cons 2(3,4) by (simp_all add: comparator_enqueue)
  then show ?case
    using 2(1) [of out] 2(2) by simp
next
  case (3 ops q)
  from 3(2) obtain x q1 where d: "dequeue q = Inr (x, q1)"
    by (auto split: sum.splits)
  then have ne: "content q \<noteq> []"
    by (auto simp: dequeue_empty)
  from dequeue_nonempty [of q] cons 3(3,4) ne d
  have q1: "comparator q1 = cmp" "heap cmp (content q1)"
    by auto
  from 3(2) d obtain xs where r: "run_ops ops q1 = Inr (xs, q')"
    by (auto split: sum.splits)
  show ?case
    using "3.IH" [OF d refl r q1] .
qed

lemma dequeue_run_sorted:
  assumes cons: "consistent cmp"
  shows "comparator q = cmp \<Longrightarrow> heap cmp (content q) \<Longrightarrow> n \<le> length (content q) \<Longrightarrow>
         \<exists>xs q'. run_ops (replicate n Dequeue) q = Inr (xs, q') \<and> length xs = n \<and>
                 sorted_wrt (\<lambda>a b. cmp a b \<le> 0) xs \<and>
                 mset xs + mset (content q') = mset (content q)"
proof (induction n arbitrary: q)
  case 0
  then show ?case by simp
next
  case (Suc n)
  have ne: "content q \<noteq> []" using Suc.prems(3) by auto
  from dequeue_nonempty [of q] cons Suc.prems(1,2) ne
  obtain q1 where d: "dequeue q = Inr (content q ! 0, q1)"
    and q1: "comparator q1 = cmp" "heap cmp (content q1)"
    and ms: "add_mset (content q ! 0) (mset (content q1)) = mset (content q)"
    and mn: "\<forall>y\<in>set (content q). cmp (content q ! 0) y \<le> 0"
    by auto
  have "size (mset (content q)) = Suc (size (mset (content q1)))"
    by (simp flip: ms)
  then have "n \<le> length (content q1)"
    using Suc.prems(3) by simp
  from Suc.IH [OF q1 this]
  obtain xs q' where r: "run_ops (replicate n Dequeue) q1 = Inr (xs, q')"
    and len: "length xs = n" and srt: "sorted_wrt (\<lambda>a b. cmp a b \<le> 0) xs"
    and ms': "mset xs + mset (content q') = mset (content q1)"
    by blast
  have "set xs \<subseteq> set (content q)"
  proof
    fix y assume "y \<in> set xs"
    then have "y \<in># mset xs + mset (content q')" by simp
    then have "y \<in># mset (content q1)" by (simp only: ms')
    then have "y \<in># mset (content q)" by (simp flip: ms)
    then show "y \<in> set (content q)" by simp
  qed
  then have "\<forall>y\<in>set xs. cmp (content q ! 0) y \<le> 0"
    using mn by blast
  moreover have "mset (content q ! 0 # xs) + mset (content q') = mset (content q)"
    using ms ms' by simp
  ultimately show ?case
    using d r len srt by (intro exI [of _ "content q ! 0 # xs"] exI [of _ q']) simp
qed

text \<open>
  C2. Let the comparator be consistent, let any sequence of enqueue and dequeue calls have run
  without error on a new queue, and let \<open>n\<close> be at most the number of stored items. Then \<open>n\<close>
  dequeue calls in a row succeed and return a sequence that is non-decreasing under the
  comparator (every earlier element is not greater than every later one), a part of the stored
  items; and when all stored items have been dequeued the next dequeue fails with an error.
\<close>

theorem dequeue_runs_nondecreasing:
  assumes "consistent cmp"
    and "run_ops ops (new_PriorityQueue cmp) = Inr (out, q)"
    and "n \<le> count_pq q"
  shows "\<exists>xs q'. run_ops (replicate n Dequeue) q = Inr (xs, q') \<and> length xs = n \<and>
                 sorted_wrt (\<lambda>a b. cmp a b \<le> 0) xs \<and>
                 mset xs + mset (content q') = mset (content q) \<and>
                 (n = count_pq q \<longrightarrow> dequeue q' = Inl EmptyQueue)"
proof -
  have "comparator (new_PriorityQueue cmp) = cmp" "heap cmp (content (new_PriorityQueue cmp))"
    by (simp_all add: new_PriorityQueue_def heap_def)
  from run_ops_heap [OF assms(1,2) this]
  have q: "comparator q = cmp" "heap cmp (content q)" by simp_all
  from dequeue_run_sorted [OF assms(1) q, of n] assms(3)
  obtain xs q' where r: "run_ops (replicate n Dequeue) q = Inr (xs, q')" "length xs = n"
    "sorted_wrt (\<lambda>a b. cmp a b \<le> 0) xs" "mset xs + mset (content q') = mset (content q)"
    by (auto simp: count_pq_def)
  have "n = count_pq q \<longrightarrow> dequeue q' = Inl EmptyQueue"
  proof
    assume "n = count_pq q"
    then have "size (mset xs) = size (mset (content q))"
      using r(2) by (simp add: count_pq_def)
    then have "size (mset (content q')) = 0"
      by (simp flip: r(4))
    then show "dequeue q' = Inl EmptyQueue"
      by (simp add: dequeue_empty)
  qed
  then show ?thesis using r by blast
qed

theorem dequeue_runs_nondecreasing_witness:
  "consistent cmp_int \<and>
   run_ops [Enqueue 5, Enqueue 3, Enqueue 8, Enqueue 1, Dequeue, Enqueue 2]
     (new_PriorityQueue cmp_int) = Inr ([1], \<lparr>comparator = cmp_int, content = [2, 3, 8, 5]\<rparr>) \<and>
   4 \<le> count_pq \<lparr>comparator = cmp_int, content = [2, 3, 8, 5]\<rparr> \<and>
   run_ops (replicate 4 Dequeue) \<lparr>comparator = cmp_int, content = [2, 3, 8, 5]\<rparr> =
     Inr ([2, 3, 5, 8], \<lparr>comparator = cmp_int, content = []\<rparr>) \<and>
   sorted_wrt (\<lambda>a b. cmp_int a b \<le> 0) [2, 3, 5, 8] \<and>
   dequeue \<lparr>comparator = cmp_int, content = []\<rparr> = Inl EmptyQueue"
proof -
  let ?q = "\<lparr>comparator = cmp_int, content = [2, 3, 8, 5]\<rparr>"
  have c: "consistent cmp_int"
    by (simp add: consistent_def cmp_int_def)
  have r: "run_ops [Enqueue 5, Enqueue 3, Enqueue 8, Enqueue 1, Dequeue, Enqueue 2]
             (new_PriorityQueue cmp_int) = Inr ([1], ?q)"
    by (simp add: new_PriorityQueue_def enqueue_def dequeue_def sift_up.simps sift_down.simps
        cmp_int_def [abs_def] Let_def)
  have n: "4 \<le> count_pq ?q"
    by (simp add: count_pq_def)
  have e: "run_ops (replicate 4 Dequeue) ?q =
             Inr ([2, 3, 5, 8], \<lparr>comparator = cmp_int, content = []\<rparr>)"
    by (simp add: dequeue_def sift_down.simps cmp_int_def [abs_def] Let_def numeral_eq_Suc)
  from dequeue_runs_nondecreasing [OF c r n] e
  have "sorted_wrt (\<lambda>a b. cmp_int a b \<le> 0) [2, 3, 5, 8]"
    and "dequeue \<lparr>comparator = cmp_int, content = []\<rparr> = Inl EmptyQueue"
    by (auto simp: count_pq_def)
  then show ?thesis
    using c r n e by blast
qed


section \<open>Properties of the Pathfinder\<close>

text \<open>The equation of the reconstruction loop with its test as a conditional, for evaluation.\<close>

lemma reconstruct_code [code]:
  "reconstruct cf cur ret =
     (if cur = None then Some ret else reconstruct cf (cf (the cur)) (ret @ [the cur]))"
  by (subst reconstruct.simps) (simp split: option.splits)

text \<open>What a successful \<^verbatim>\<open>dequeue\<close> does to the content, for any comparator.\<close>

lemma dequeue_Inr:
  assumes "dequeue q = Inr (x, fr)"
  shows "add_mset x (mset (content fr)) = mset (content q)"
proof -
  have ne: "content q \<noteq> []"
    using assms by (auto simp: dequeue_def)
  let ?c = "content q"
  let ?c1 = "butlast (?c[0 := ?c ! (length ?c - 1)])"
  let ?last = "int (length ?c) - 1 - 1"
  have idx: "nat (int (length ?c) - 1) = length ?c - 1" by simp
  have l: "?last = int (length ?c1) - 1" using ne by (cases "content q") simp_all
  have "x = ?c ! 0" "content fr = sift_down (comparator q) ?last ?c1 0"
    using assms ne by (auto simp: dequeue_def Let_def idx)
  then show ?thesis
    using mset_sift_down [OF l, of ?c1 "comparator q" 0] mset_butlast_update [OF ne] by simp
qed

lemma dequeue_count: "0 < count_pq q \<Longrightarrow> \<exists>x fr. dequeue q = Inr (x, fr)"
  by (simp add: dequeue_def count_pq_def Let_def)

lemma finite_board: "finite {c. on_board env c}"
proof -
  have "{c. on_board env c} \<subseteq> {0..<map_width env} \<times> {0..<map_height env}"
    by (auto simp: on_board_def)
  then show ?thesis
    by (rule finite_subset) simp
qed

lemma passable_on_board: "truelyPassableAbsolute env x y tv \<Longrightarrow> on_board env (x, y)"
  by (auto simp: truelyPassableAbsolute_def truelyPassableDelta_def on_board_def Let_def
      split: if_splits)

lemma closedSet_visit [simp]: "closedSet (visit_action env L c a st) = closedSet st"
  by (simp add: visit_action_def Let_def split: option.splits)

lemma cameFrom_visit [simp]: "cameFrom (visit_action env L c a st) = cameFrom st"
  by (simp add: visit_action_def Let_def split: option.splits)

lemma off_count_visit [simp]: "off_count env (visit_action env L c a st) = off_count env st"
  by (simp add: visit_action_def Let_def off_count_def mset_enqueue passable_on_board
      split: option.splits)

lemma closedSet_expand [simp]: "closedSet (expand env L c as st) = closedSet st"
  unfolding expand_def by (induction as arbitrary: st) simp_all

lemma cameFrom_expand [simp]: "cameFrom (expand env L c as st) = cameFrom st"
  unfolding expand_def by (induction as arbitrary: st) simp_all

lemma off_count_expand: "off_count env (expand env L c as st) = off_count env st"
  unfolding expand_def by (induction as arbitrary: st) simp_all

lemma open_count_expand: "open_count env (expand env L c as st) = open_count env st"
  by (simp add: open_count_def)

lemma open_count_close:
  assumes c: "\<not> closedSet st c"
  shows "open_count env (st\<lparr>closedSet := (closedSet st)(c := True), cameFrom := cf\<rparr>) =
           (if on_board env c then open_count env st - 1 else open_count env st) \<and>
         (on_board env c \<longrightarrow> 0 < open_count env st)"
proof -
  let ?S = "{d. on_board env d \<and> \<not> closedSet st d}"
  let ?st = "st\<lparr>closedSet := (closedSet st)(c := True), cameFrom := cf\<rparr>"
  have fin: "finite ?S"
    using finite_board [of env] by (rule rev_finite_subset) auto
  have "{d. on_board env d \<and> \<not> closedSet ?st d} = ?S - {c}"
    by auto
  then have oc: "open_count env ?st = card (?S - {c})"
    unfolding open_count_def by (rule arg_cong)
  show ?thesis
  proof (cases "on_board env c")
    case True
    then have in_S: "c \<in> ?S" using c by simp
    then have "card (?S - {c}) = card ?S - 1"
      by (simp add: card_Diff_singleton)
    moreover have "0 < card ?S"
      using fin in_S card_gt_0_iff by blast
    ultimately show ?thesis
      using True oc by (simp add: open_count_def)
  next
    case False
    then have "?S - {c} = ?S" by auto
    then show ?thesis
      using False oc by (simp add: open_count_def)
  qed
qed

text \<open>
  The search terminates: an iteration either closes a tile of the board or removes an
  off-board entry from the frontier, and enqueues only tiles of the board, or it leaves both
  counts as they are and shortens the frontier.
\<close>

termination search
proof (relation "inv_image (less_than <*lex*> less_than)
           (\<lambda>(env, L, st). (open_count env st + off_count env st, length (content (frontier st))))")
  show "wf (inv_image (less_than <*lex*> less_than)
           (\<lambda>(env, L, st). (open_count env st + off_count env st, length (content (frontier st)))))"
    by (intro wf_inv_image wf_lex_prod wf_less_than)
next
  fix env :: robot and L :: locals and st :: search_state and b x y xa
  assume d: "dequeue (frontier st) = Inr b" "(x, y) = b" and xa: "xa = st\<lparr>frontier := y\<rparr>"
  have ms: "add_mset x (mset (content y)) = mset (content (frontier st))"
    using d by (intro dequeue_Inr) simp
  have "size (mset (content (frontier st))) = Suc (size (mset (content y)))"
    by (simp flip: ms)
  then have len: "length (content y) < length (content (frontier st))"
    by simp
  have "off_count env xa \<le> off_count env st"
    by (simp add: off_count_def xa flip: ms)
  moreover have "open_count env xa = open_count env st"
    by (simp add: open_count_def xa)
  ultimately show "((env, L, xa), env, L, st) \<in> inv_image (less_than <*lex*> less_than)
           (\<lambda>(env, L, st). (open_count env st + off_count env st, length (content (frontier st))))"
    using len by (auto simp: xa)
next
  fix env :: robot and L :: locals and st :: search_state and b x y xa xb
  assume d: "dequeue (frontier st) = Inr b" "(x, y) = b" and xa: "xa = st\<lparr>frontier := y\<rparr>"
    and nc: "\<not> closedSet xa (elem x)"
    and xb: "xb = xa\<lparr>closedSet := (closedSet xa)(elem x := True),
                       cameFrom := (cameFrom xa)(elem x := came_from x)\<rparr>"
  have ms: "add_mset x (mset (content y)) = mset (content (frontier st))"
    using d by (intro dequeue_Inr) simp
  have off: "off_count env st = (if on_board env (elem x) then 0 else 1) + off_count env xa"
    by (simp add: off_count_def xa flip: ms)
  have "off_count env xb = off_count env xa"
    by (simp add: off_count_def xb)
  moreover have "open_count env xa = open_count env st"
    by (simp add: open_count_def xa)
  moreover note open_count_close [OF nc, of env "(cameFrom xa)(elem x := came_from x)"]
  ultimately have "open_count env xb + off_count env xb < open_count env st + off_count env st"
    using off by (auto simp: xb split: if_splits)
  then show "((env, L, expand env L (elem x) (L_deltaActions L) xb), env, L, st)
          \<in> inv_image (less_than <*lex*> less_than)
           (\<lambda>(env, L, st). (open_count env st + off_count env st, length (content (frontier st))))"
    by (simp add: off_count_expand open_count_expand)
qed

declare search.simps [simp del]

lemma back_path_hd: "back_path cf c q \<Longrightarrow> q \<noteq> [] \<and> hd q = c"
  by (induction rule: back_path.induct) simp_all

lemma back_path_upd:
  "back_path cf c q \<Longrightarrow> d \<notin> set q \<Longrightarrow> back_path (cf(d := v)) c q"
  by (induction rule: back_path.induct) (auto intro: back_path.intros)

lemma reconstruct_back_path:
  "back_path cf c q \<Longrightarrow> reconstruct cf (Some c) ret = Some (ret @ q)"
proof (induction arbitrary: ret rule: back_path.induct)
  case (root cf c)
  then show ?case
    by (subst reconstruct.simps) (simp add: reconstruct.simps [of cf None])
next
  case (link cf c p q)
  show ?case
    using link.hyps(1) link.IH [of "ret @ [c]"]
    by (subst reconstruct.simps) simp
qed

lemma set_enqueue: "set (content (enqueue x q)) = insert x (set (content q))"
proof -
  have "set_mset (mset (content (enqueue x q))) = set_mset (add_mset x (mset (content q)))"
    by (simp only: mset_enqueue)
  then show ?thesis by simp
qed

lemma set_dequeue:
  assumes "dequeue q = Inr (x, fr)"
  shows "x \<in> set (content q)" "set (content fr) \<subseteq> set (content q)"
proof -
  have "set_mset (add_mset x (mset (content fr))) = set_mset (mset (content q))"
    by (simp only: dequeue_Inr [OF assms])
  then show "x \<in> set (content q)" "set (content fr) \<subseteq> set (content q)"
    by auto
qed

lemma traced_mono:
  assumes "traced env L s st c q" "cameFrom st' = (cameFrom st)(d := v)" "\<not> closedSet st d"
    and "\<And>e. closedSet st e \<Longrightarrow> closedSet st' e"
  shows "traced env L s st' c q"
proof -
  have "d \<notin> set q" using assms(1,3) by (auto simp: traced_def)
  then show ?thesis
    using assms by (auto simp: traced_def intro: back_path_upd)
qed

lemma node_ok_mono:
  "node_ok env L s st n \<Longrightarrow> (\<And>e. closedSet st e \<Longrightarrow> closedSet st' e) \<Longrightarrow> node_ok env L s st' n"
  unfolding node_ok_def by blast

lemma search_inv_frontier:
  assumes "search_inv env L s st" "set (content fr) \<subseteq> set (content (frontier st))"
  shows "search_inv env L s (st\<lparr>frontier := fr\<rparr>)"
  using assms unfolding search_inv_def traced_def node_ok_def by (simp add: subset_iff)

lemma search_inv_close:
  assumes inv: "search_inv env L s st" and n: "node_ok env L s st n"
    and unclosed: "\<not> closedSet st (elem n)"
  defines "st' \<equiv> st\<lparr>closedSet := (closedSet st)(elem n := True),
                     cameFrom := (cameFrom st)(elem n := came_from n)\<rparr>"
  shows "search_inv env L s st'" "\<exists>q. traced env L s st' (elem n) q"
proof -
  have cf: "cameFrom st' = (cameFrom st)(elem n := came_from n)"
    and cl: "\<And>e. closedSet st e \<Longrightarrow> closedSet st' e"
    by (simp_all add: st'_def)
  have old: "\<exists>q. traced env L s st' c q" if "closedSet st c" for c
  proof -
    from inv that obtain q where "traced env L s st c q"
      unfolding search_inv_def by blast
    then have "traced env L s st' c q"
      using cf unclosed cl by (rule traced_mono)
    then show ?thesis ..
  qed
  from n have "(elem n = s \<and> came_from n = None) \<or>
     (\<exists>p. came_from n = Some p \<and> closedSet st p \<and> legal env L p (elem n))"
    by (simp only: node_ok_def)
  then show new: "\<exists>q. traced env L s st' (elem n) q"
  proof (elim disjE conjE exE)
    assume "elem n = s" "came_from n = None"
    then have "traced env L s st' (elem n) [elem n]"
      by (auto simp: traced_def st'_def intro: back_path.root)
    then show ?thesis ..
  next
    fix p assume p: "came_from n = Some p" "closedSet st p" "legal env L p (elem n)"
    from old [OF p(2)] obtain q where q: "traced env L s st' p q" ..
    then have hd: "q \<noteq> []" "hd q = p"
      using back_path_hd unfolding traced_def by blast+
    have "cameFrom st' (elem n) = Some p"
      using p(1) by (simp add: st'_def)
    then have "back_path (cameFrom st') (elem n) (elem n # q)"
      using q unfolding traced_def by (auto intro: back_path.link)
    moreover have "successively (\<lambda>b a. legal env L a b) (elem n # q)"
      using q hd p(3) unfolding traced_def by (simp add: successively_Cons)
    moreover have "closedSet st' (elem n)"
      by (simp add: st'_def)
    ultimately have "traced env L s st' (elem n) (elem n # q)"
      using q hd unfolding traced_def by simp
    then show ?thesis ..
  qed
  have "\<exists>q. traced env L s st' c q" if "closedSet st' c" for c
  proof (cases "c = elem n")
    case True
    then show ?thesis using new by simp
  next
    case False
    then have "closedSet st c" using that by (simp add: st'_def)
    then show ?thesis by (rule old)
  qed
  moreover have "node_ok env L s st' m" if "m \<in> set (content (frontier st'))" for m
  proof -
    have "m \<in> set (content (frontier st))" using that by (simp add: st'_def)
    then have "node_ok env L s st m"
      using inv unfolding search_inv_def by blast
    then show ?thesis using cl by (rule node_ok_mono)
  qed
  ultimately show "search_inv env L s st'"
    unfolding search_inv_def by blast
qed

lemma search_inv_visit:
  assumes inv: "search_inv env L s st" and c: "closedSet st c" and a: "a \<in> set (L_deltaActions L)"
  shows "search_inv env L s (visit_action env L c a st)"
proof -
  let ?new = "(fst c + fst a, snd c + snd a)"
  have enq: "search_inv env L s
      (st\<lparr>gScore := g, frontier := enqueue \<lparr>cost = k, elem = ?new, came_from = Some c\<rparr> (frontier st)\<rparr>)"
    if pass: "truelyPassableAbsolute env (fst c + fst a) (snd c + snd a) (L_tvmap L)" for g k
  proof -
    let ?n = "\<lparr>cost = k, elem = ?new, came_from = Some c\<rparr>"
    let ?st = "st\<lparr>gScore := g, frontier := enqueue ?n (frontier st)\<rparr>"
    have "legal env L c ?new"
      using pass a by (simp add: legal_def)
    then have "node_ok env L s ?st ?n"
      using c unfolding node_ok_def by simp
    moreover have "node_ok env L s ?st m" if "m \<in> set (content (frontier st))" for m
    proof -
      have "node_ok env L s st m" using inv that unfolding search_inv_def by blast
      then show ?thesis by (rule node_ok_mono) simp
    qed
    moreover have "\<exists>q. traced env L s ?st d q" if "closedSet ?st d" for d
    proof -
      have "closedSet st d" using that by simp
      with inv obtain q where "traced env L s st d q"
        unfolding search_inv_def by blast
      then have "traced env L s ?st d q" by (simp add: traced_def)
      then show ?thesis ..
    qed
    ultimately show ?thesis
      unfolding search_inv_def by (auto simp: set_enqueue)
  qed
  show ?thesis
    using inv enq by (auto simp: visit_action_def Let_def split: option.splits)
qed

lemma search_inv_expand:
  "search_inv env L s st \<Longrightarrow> closedSet st c \<Longrightarrow> set as \<subseteq> set (L_deltaActions L) \<Longrightarrow>
   search_inv env L s (expand env L c as st)"
  unfolding expand_def
  by (induction as arbitrary: st) (simp_all add: search_inv_visit)

lemma search_correct:
  "\<not> L_mappingMode L \<Longrightarrow> search_inv env L s st \<Longrightarrow>
   search env L st = Some (Inr NoRoute) \<or>
   (\<exists>p. search env L st = Some (Inr (Path p)) \<and> route env L s p)"
proof (induction env L st rule: search.induct)
  case (1 env L st)
  show ?case
  proof (cases "0 < count_pq (frontier st)")
    case False
    then have "search env L st = Some (Inr NoRoute)"
      using "1.prems"(1) by (subst search.simps) simp
    then show ?thesis by simp
  next
    case True
    then obtain n fr where d: "dequeue (frontier st) = Inr (n, fr)"
      using dequeue_count by blast
    note sd = set_dequeue [OF d]
    let ?st1 = "st\<lparr>frontier := fr\<rparr>"
    have inv1: "search_inv env L s ?st1"
      using "1.prems"(2) sd(2) by (rule search_inv_frontier)
    have "node_ok env L s st n"
      using "1.prems"(2) sd(1) unfolding search_inv_def by blast
    then have ok1: "node_ok env L s ?st1 n"
      by (rule node_ok_mono) simp
    show ?thesis
    proof (cases "closedSet st (elem n)")
      case closed: True
      have "search env L st = search env L ?st1"
        using True d closed by (subst search.simps) simp
      moreover have "search env L ?st1 = Some (Inr NoRoute) \<or>
          (\<exists>p. search env L ?st1 = Some (Inr (Path p)) \<and> route env L s p)"
        using closed "1.prems"(1) inv1 by (intro "1.IH"(1) [OF True d refl refl]) simp_all
      ultimately show ?thesis by simp
    next
      case unclosed: False
      let ?st2 = "?st1\<lparr>closedSet := (closedSet ?st1)(elem n := True),
                        cameFrom := (cameFrom ?st1)(elem n := came_from n)\<rparr>"
      have u1: "\<not> closedSet ?st1 (elem n)" using unclosed by simp
      have inv2: "search_inv env L s ?st2"
        using inv1 ok1 u1 by (rule search_inv_close(1))
      from search_inv_close(2) [OF inv1 ok1 u1]
      obtain q where q: "traced env L s ?st2 (elem n) q" ..
      show ?thesis
      proof (cases "list_ex (\<lambda>t. elem n = t) (L_targets L)")
        case target: True
        have bp: "back_path (cameFrom ?st2) (elem n) q"
          using q unfolding traced_def by blast
        have "search env L st = Some (Inr (Path (rev q)))"
          using True d unclosed target "1.prems"(1) reconstruct_back_path [OF bp, of "[]"]
          by (subst search.simps) simp
        moreover have "route env L s (rev q)"
          using q back_path_hd [OF bp] target
          unfolding traced_def route_def
          by (auto simp: hd_rev last_rev list_ex_iff)
        ultimately show ?thesis by blast
      next
        case other: False
        let ?st3 = "expand env L (elem n) (L_deltaActions L) ?st2"
        have "search env L st = search env L ?st3"
          using True d unclosed other by (subst search.simps) simp
        moreover have "search_inv env L s ?st3"
          using inv2 by (intro search_inv_expand) simp_all
        then have "search env L ?st3 = Some (Inr NoRoute) \<or>
          (\<exists>p. search env L ?st3 = Some (Inr (Path p)) \<and> route env L s p)"
          using unclosed other "1.prems"(1)
          by (intro "1.IH"(2) [OF True d refl refl _ refl]) simp_all
        ultimately show ?thesis by simp
      qed
    qed
  qed
qed

lemma promote_goals: "goals targets \<noteq> [] \<Longrightarrow> promote_targets targets = Some (goals targets)"
  by (cases targets rule: promote_targets.cases) simp_all

lemma search_inv_init:
  "search_inv env L s
     \<lparr>frontier = enqueue \<lparr>cost = 0, elem = s, came_from = None\<rparr> (new_PriorityQueue cost_order),
      closedSet = (\<lambda>_. False), cameFrom = (\<lambda>_. None), gScore = g\<rparr>"
  unfolding search_inv_def node_ok_def
  by (simp add: set_enqueue new_PriorityQueue_def)

text \<open>
  The call of \<^verbatim>\<open>generateTrueVisionPassableMap\<close> writes the cache only: what the search reads
  of the robot is the same before and after it.
\<close>

lemma generate_fields [simp]:
  "me_x (snd (generateTrueVisionPassableMap env)) = me_x env"
  "me_y (snd (generateTrueVisionPassableMap env)) = me_y env"
  "me_unit (snd (generateTrueVisionPassableMap env)) = me_unit env"
  "map_height (snd (generateTrueVisionPassableMap env)) = map_height env"
  "map_width (snd (generateTrueVisionPassableMap env)) = map_width env"
  "SPEED (snd (generateTrueVisionPassableMap env)) = SPEED env"
  "FUEL_PER_MOVE (snd (generateTrueVisionPassableMap env)) = FUEL_PER_MOVE env"
  by (simp_all add: generateTrueVisionPassableMap_def Let_def)

lemma generate_cached:
  "util_tv_cache_turn env = Some (me_turn env) \<Longrightarrow>
   generateTrueVisionPassableMap env = (util_tv_cache_map env, env)"
  by (simp add: generateTrueVisionPassableMap_def)

lemma generate_twice:
  "generateTrueVisionPassableMap (snd (generateTrueVisionPassableMap env)) =
   generateTrueVisionPassableMap env"
  by (simp add: generateTrueVisionPassableMap_def Let_def)

lemma truelyPassableAbsolute_generate [simp]:
  "truelyPassableAbsolute (snd (generateTrueVisionPassableMap env)) x y tv =
   truelyPassableAbsolute env x y tv"
  by (simp add: truelyPassableAbsolute_def truelyPassableDelta_def)

lemma listPossibleMoves_generate [simp]:
  "listPossibleMoves (snd (generateTrueVisionPassableMap env)) unit = listPossibleMoves env unit"
  by (simp add: listPossibleMoves_def)

text \<open>
  C7. Let the \<^verbatim>\<open>map\<close> flag be unset and let the goal argument name at least one tile; \<open>s\<close>
  is the start (the own position when no start is given), \<open>tv\<close> the passability map in use
  (the one of the flags, else the true vision map of the cache) and \<open>unit\<close> the mover. If no
  goal is passable on \<open>tv\<close>, \<^verbatim>\<open>findPath\<close> returns the no-route result, whatever the start is,
  even one for which the set-up of the search would raise: the test comes before the search.
  If the row of the start is a row of the map, \<^verbatim>\<open>findPath\<close> returns (the search terminates,
  and no error is raised) either the no-route result or a path that begins with the start, ends
  with one of the goals, and in which every step is one of the moves of the mover onto a
  passable tile.
\<close>

theorem findPath_path_or_no_route:
  fixes env :: robot and targets mode start flags
  defines "s \<equiv> (case start of None \<Rightarrow> (me_x env, me_y env) | Some c \<Rightarrow> c)"
    and "tv \<equiv> (case flag_tvmap flags of Some m \<Rightarrow> m
                    | None \<Rightarrow> fst (generateTrueVisionPassableMap env))"
    and "unit \<equiv> (case flag_unit flags of None \<Rightarrow> me_unit env
                      | Some u \<Rightarrow> if u \<noteq> 0 then u else me_unit env)"
  assumes nomap: "\<not> flag_map flags" and ne: "goals targets \<noteq> []"
  shows "((\<forall>t\<in>set (goals targets). \<not> truelyPassableAbsolute env (fst t) (snd t) tv) \<longrightarrow>
            fst (findPath env targets mode start flags) = Some (Inr NoRoute)) \<and>
         (0 \<le> snd s \<and> snd s < map_height env \<longrightarrow>
            fst (findPath env targets mode start flags) = Some (Inr NoRoute) \<or>
            (\<exists>p. fst (findPath env targets mode start flags) = Some (Inr (Path p)) \<and>
                 p \<noteq> [] \<and> hd p = s \<and> last p \<in> set (goals targets) \<and>
                 successively
                   (\<lambda>a b. (fst b - fst a, snd b - snd a) \<in> set (listPossibleMoves env unit) \<and>
                          truelyPassableAbsolute env (fst b) (snd b) tv) p))"
proof -
  define env' where "env' = (case flag_tvmap flags of Some m \<Rightarrow> env
                             | None \<Rightarrow> snd (generateTrueVisionPassableMap env))"
  have tvp: "(case flag_tvmap flags of Some m \<Rightarrow> (m, env)
              | None \<Rightarrow> generateTrueVisionPassableMap env) = (tv, env')"
    by (simp add: tv_def env'_def split: option.splits)
  have pass: "truelyPassableAbsolute env' x y m = truelyPassableAbsolute env x y m" for x y m
    by (simp add: env'_def split: option.splits)
  have moves: "listPossibleMoves env' u = listPossibleMoves env u" for u
    by (simp add: env'_def split: option.splits)
  have same: "me_unit env' = me_unit env" "map_height env' = map_height env"
    "FUEL_PER_MOVE env' = FUEL_PER_MOVE env"
    by (simp_all add: env'_def split: option.splits)
  define ff where "ff = (if (case mode of None \<Rightarrow> NAV_ECONOMIC
                  | Some m \<Rightarrow> if m \<noteq> 0 then m else NAV_ECONOMIC) = NAV_ECONOMIC then (10::int) else 1)"
  define tf where "tf = (if (case mode of None \<Rightarrow> NAV_ECONOMIC
                  | Some m \<Rightarrow> if m \<noteq> 0 then m else NAV_ECONOMIC) = NAV_ECONOMIC then (1::int) else 10)"
  define L where "L = \<lparr>L_targets = goals targets, L_mappingMode = False, L_tvmap = tv,
                       L_fuelFactor = ff, L_timeFactor = tf,
                       L_deltaActions = listPossibleMoves env unit,
                       L_FUEL_PER_MOVE = FUEL_PER_MOVE env (me_unit env)\<rparr>"
  define st where "st = \<lparr>frontier = enqueue \<lparr>cost = 0, elem = s, came_from = None\<rparr>
                                     (new_PriorityQueue cost_order),
                         closedSet = (\<lambda>_. False), cameFrom = (\<lambda>_. None),
                         gScore = (\<lambda>_. None)(s := Some 0)\<rparr>"
  have blocked: "fst (findPath env targets mode start flags) = Some (Inr NoRoute)"
    if "\<not> list_ex (\<lambda>t. truelyPassableAbsolute env (fst t) (snd t) tv) (goals targets)"
    using that nomap promote_goals [OF ne]
    by (simp add: findPath_def Let_def tvp pass split: prod.splits)
  have searched: "fst (findPath env targets mode start flags) = search env' L st"
    if "list_ex (\<lambda>t. truelyPassableAbsolute env (fst t) (snd t) tv) (goals targets)"
      and "0 \<le> snd s \<and> snd s < map_height env"
    using that nomap promote_goals [OF ne]
    by (auto simp: findPath_def Let_def tvp pass moves same s_def unit_def L_def st_def
        ff_def tf_def split: prod.splits)
  have nm: "\<not> L_mappingMode L" by (simp add: L_def)
  have inv: "search_inv env' L s st"
    unfolding st_def by (rule search_inv_init)
  have route: "route env' L s p \<longleftrightarrow> p \<noteq> [] \<and> hd p = s \<and> last p \<in> set (goals targets) \<and>
                 successively
                   (\<lambda>a b. (fst b - fst a, snd b - snd a) \<in> set (listPossibleMoves env unit) \<and>
                          truelyPassableAbsolute env (fst b) (snd b) tv) p" for p
  proof -
    have "legal env' L = (\<lambda>a b. (fst b - fst a, snd b - snd a) \<in> set (listPossibleMoves env unit) \<and>
                          truelyPassableAbsolute env (fst b) (snd b) tv)"
      by (intro ext) (simp add: legal_def L_def pass)
    then show ?thesis
      by (simp add: route_def) (simp add: L_def)
  qed
  show ?thesis
  proof (intro conjI impI)
    assume "\<forall>t\<in>set (goals targets). \<not> truelyPassableAbsolute env (fst t) (snd t) tv"
    then show "fst (findPath env targets mode start flags) = Some (Inr NoRoute)"
      by (intro blocked) (simp add: list_ex_iff)
  next
    assume row: "0 \<le> snd s \<and> snd s < map_height env"
    show "fst (findPath env targets mode start flags) = Some (Inr NoRoute) \<or>
            (\<exists>p. fst (findPath env targets mode start flags) = Some (Inr (Path p)) \<and>
                 p \<noteq> [] \<and> hd p = s \<and> last p \<in> set (goals targets) \<and>
                 successively
                   (\<lambda>a b. (fst b - fst a, snd b - snd a) \<in> set (listPossibleMoves env unit) \<and>
                          truelyPassableAbsolute env (fst b) (snd b) tv) p)"
    proof (cases "list_ex (\<lambda>t. truelyPassableAbsolute env (fst t) (snd t) tv) (goals targets)")
      case False
      then show ?thesis using blocked by simp
    next
      case True
      then show ?thesis
        using search_correct [OF nm inv] by (simp add: searched row route)
    qed
  qed
qed

lemma ceil_sqrt_ge: "n \<le> ceil_sqrt n * ceil_sqrt n"
proof -
  have "n \<in> set [0..<Suc n]" "n \<le> n * n" by simp_all
  then have "find (\<lambda>k. n \<le> k * k) [0..<Suc n] \<noteq> None"
    unfolding find_None_iff by blast
  then obtain k where k: "find (\<lambda>k. n \<le> k * k) [0..<Suc n] = Some k" by blast
  then have "n \<le> k * k"
    by (auto simp: find_Some_iff)
  moreover have "ceil_sqrt n = k"
    unfolding ceil_sqrt_def by (simp only: k option.case)
  ultimately show ?thesis
    by simp
qed

lemma abs_le_ceil_sqrt:
  assumes "d * d \<le> m" "0 \<le> m"
  shows "\<bar>d\<bar> \<le> int (ceil_sqrt (nat m))"
proof (rule ccontr)
  let ?k = "int (ceil_sqrt (nat m))"
  assume "\<not> \<bar>d\<bar> \<le> ?k"
  then have "?k + 1 \<le> \<bar>d\<bar>" by simp
  then have "(?k + 1) * (?k + 1) \<le> \<bar>d\<bar> * \<bar>d\<bar>"
    by (intro mult_mono) simp_all
  moreover have "\<bar>d\<bar> * \<bar>d\<bar> = d * d" by (simp add: abs_mult_self_eq)
  moreover have "m \<le> ?k * ?k"
    using ceil_sqrt_ge [of "nat m"] assms(2)
    by (metis nat_le_iff of_nat_mult)
  ultimately have "(?k + 1) * (?k + 1) \<le> ?k * ?k"
    using assms(1) by linarith
  then show False
    by (simp add: algebra_simps)
qed

lemma listDeltaTiles_iff:
  "(dx, dy) \<in> set (listDeltaTiles lo hi) \<longleftrightarrow>
     lo \<le> dx * dx + dy * dy \<and> dx * dx + dy * dy \<le> hi"
proof (cases "hi < 0")
  case True
  have "0 \<le> dx * dx + dy * dy" by simp
  then have "\<not> dx * dx + dy * dy \<le> hi" using True by linarith
  then show ?thesis using True by (simp add: listDeltaTiles_def)
next
  case False
  let ?k = "int (ceil_sqrt (nat hi))"
  have bound: "\<bar>dx\<bar> \<le> ?k \<and> \<bar>dy\<bar> \<le> ?k" if "dx * dx + dy * dy \<le> hi"
  proof -
    have "dx * dx \<le> hi" "dy * dy \<le> hi"
      using that zero_le_square [of dx] zero_le_square [of dy] by linarith+
    then show ?thesis
      using False by (simp add: abs_le_ceil_sqrt)
  qed
  show ?thesis
    using False bound by (auto simp: listDeltaTiles_def Let_def)
qed

lemma listPossibleMoves_iff:
  "(dx, dy) \<in> set (listPossibleMoves env unit) \<longleftrightarrow>
     1 \<le> dx * dx + dy * dy \<and> dx * dx + dy * dy \<le> SPEED env unit"
  by (simp add: listPossibleMoves_def listDeltaTiles_iff)

text \<open>The equation of the search loop with its tests as conditionals, for evaluation.\<close>

lemma search_code [code]:
  "search env L st =
     (if count_pq (frontier st) > 0 then
        (let d = dequeue (frontier st) in
         if isl d then Some (Inl (QueueError (projl d)))
         else
           (let current = fst (projr d);
                st = st\<lparr>frontier := snd (projr d)\<rparr>
            in if closedSet st (elem current) then search env L st
               else
                 (let st = st\<lparr>closedSet := (closedSet st)(elem current := True),
                              cameFrom := (cameFrom st)(elem current := came_from current)\<rparr>
                  in if \<not> L_mappingMode L \<and> list_ex (\<lambda>t. elem current = t) (L_targets L)
                     then map_option (\<lambda>ret. Inr (Path (rev ret)))
                            (reconstruct (cameFrom st) (Some (elem current)) [])
                     else search env L (expand env L (elem current) (L_deltaActions L) st))))
      else if L_mappingMode L then Some (Inr (ScoreMap (gScore st)))
      else Some (Inr NoRoute))"
  by (subst search.simps) (auto simp: Let_def split: sum.splits)

lemma example_search:
  "(case search example_robot example_locals example_start of
      Some (Inr (Path p)) \<Rightarrow> p = [(2, 2), (1, 1)] | _ \<Rightarrow> False)"
  by code_simp

lemma example_findPath:
  "fst (findPath (open_board 10 2) (TargetList [(5, 5), (1, 1)]) (Some NAV_FASTEST) (Some (2, 2))
          no_flags)
     = search example_robot example_locals example_start"
proof -
  have p: "truelyPassableAbsolute (open_board 10 2) 5 5
             (fst (generateTrueVisionPassableMap (open_board 10 2)))"
    by (simp add: truelyPassableAbsolute_def truelyPassableDelta_def
        generateTrueVisionPassableMap_def getPassableMap_def open_board_def Let_def)
  have u: "me_unit (open_board 10 2) = 2" "map_height (open_board 10 2) = 10"
    by (simp_all add: open_board_def)
  show ?thesis
    by (simp add: findPath_def Let_def no_flags_def NAV_FASTEST_def NAV_ECONOMIC_def
        example_locals_def example_start_def example_robot_def p u case_prod_beta)
qed

theorem findPath_path_or_no_route_witness:
  "\<not> flag_map no_flags \<and> goals (TargetList [(5, 5), (1, 1)]) \<noteq> [] \<and>
   0 \<le> snd (2 :: int, 2 :: int) \<and> snd (2 :: int, 2 :: int) < map_height (open_board 10 2) \<and>
   fst (findPath (open_board 10 2) (TargetList [(5, 5), (1, 1)]) (Some NAV_FASTEST) (Some (2, 2))
          no_flags) = Some (Inr (Path [(2, 2), (1, 1)])) \<and>
   (1, 1) \<in> set (goals (TargetList [(5, 5), (1, 1)])) \<and>
   (- 1, - 1) \<in> set (listPossibleMoves (open_board 10 2) 2) \<and>
   truelyPassableAbsolute (open_board 10 2) 1 1
     (fst (generateTrueVisionPassableMap (open_board 10 2))) \<and>
   \<not> truelyPassableAbsolute (open_board 10 2) 12 1
       (fst (generateTrueVisionPassableMap (open_board 10 2))) \<and>
   \<not> truelyPassableAbsolute (open_board 10 2) 0 0
       (fst (generateTrueVisionPassableMap (open_board 10 2))) \<and>
   fst (findPath (open_board 10 2) (TargetList [(12, 1), (0, 0)]) None (Some (2, 17)) no_flags)
     = Some (Inr NoRoute)"
proof -
  let ?env = "open_board 10 2"
  let ?T = "TargetList [(5, 5), (1, 1)]"
  let ?tv = "fst (generateTrueVisionPassableMap ?env)"
  have f: "\<not> flag_map no_flags" and fl: "flag_tvmap no_flags = None" "flag_unit no_flags = None"
    by (simp_all add: no_flags_def)
  have g: "goals ?T \<noteq> []" "goals (TargetList [(12, 1), (0, 0)]) \<noteq> []" by simp_all
  have row: "0 \<le> snd (2 :: int, 2 :: int) \<and> snd (2 :: int, 2 :: int) < map_height ?env"
    and u: "me_unit ?env = 2"
    by (simp_all add: open_board_def)
  have np: "\<not> truelyPassableAbsolute ?env 12 1 ?tv" "\<not> truelyPassableAbsolute ?env 0 0 ?tv"
    by (simp_all add: truelyPassableAbsolute_def truelyPassableDelta_def
        generateTrueVisionPassableMap_def getPassableMap_def open_board_def Let_def)
  have r: "fst (findPath ?env ?T (Some NAV_FASTEST) (Some (2, 2)) no_flags)
             = Some (Inr (Path [(2, 2), (1, 1)]))"
    using example_search unfolding example_findPath [symmetric]
    by (simp split: option.splits sum.splits path_result.splits)
  from findPath_path_or_no_route [OF f g(1), of ?env "Some NAV_FASTEST" "Some (2, 2)"] row r
  have "successively
          (\<lambda>a b. (fst b - fst a, snd b - snd a) \<in> set (listPossibleMoves ?env 2) \<and>
                 truelyPassableAbsolute ?env (fst b) (snd b) ?tv) [(2, 2), (1, 1)]"
    by (simp add: fl u)
  then have step: "(- 1, - 1) \<in> set (listPossibleMoves ?env 2)" "truelyPassableAbsolute ?env 1 1 ?tv"
    by simp_all
  from findPath_path_or_no_route [OF f g(2), of ?env None "Some (2, 17)"] np
  have "fst (findPath ?env (TargetList [(12, 1), (0, 0)]) None (Some (2, 17)) no_flags)
          = Some (Inr NoRoute)"
    by (simp add: fl)
  then show ?thesis
    using f g row r step np by simp
qed

text \<open>The search of the example in mapping mode, evaluated.\<close>

lemma bfs_search:
  "(case search (open_board 3 0) bfs_locals bfs_start of
      Some (Inr (ScoreMap g)) \<Rightarrow> g (0, 0) = Some 0 \<and> g (2, 2) = Some 20 | _ \<Rightarrow> False)"
  by code_simp

lemma bfs_findPath:
  "fst (findPath (open_board 3 0) (TargetList []) (Some NAV_FASTEST) None bfs_flags)
     = search (open_board 3 0) bfs_locals bfs_start"
proof -
  have u: "me_unit (open_board 3 0) = 0" "map_height (open_board 3 0) = 3"
    "me_x (open_board 3 0) = 0" "me_y (open_board 3 0) = 0"
    by (simp_all add: open_board_def)
  show ?thesis
    by (simp add: findPath_def Let_def bfs_flags_def NAV_FASTEST_def NAV_ECONOMIC_def
        bfs_locals_def bfs_start_def u case_prod_beta)
qed

text \<open>
  The claim C7 as stated fails: not for every goal set and start position does \<^verbatim>\<open>findPath\<close>
  return a path or the no-route result. For the empty array of goals, and for a start whose
  row is not on the map (with a passable goal), it raises a \<^verbatim>\<open>TypeError\<close>; with the \<^verbatim>\<open>map\<close>
  flag, as in the call by which the castle builds its map of distances, it returns the grid of
  scores, here with the score 0 at the castle and 20, two moves, at the opposite corner.
\<close>

theorem findPath_raises_or_maps_counterexample:
  "fst (findPath (open_board 10 2) (TargetList []) None None no_flags) = Some (Inl TypeError) \<and>
   fst (findPath (open_board 10 2) (OneTarget (5, 5)) None (Some (2, 17)) no_flags)
     = Some (Inl TypeError) \<and>
   (case fst (findPath (open_board 3 0) (TargetList []) (Some NAV_FASTEST) None bfs_flags) of
      Some (Inr (ScoreMap g)) \<Rightarrow> g (0, 0) = Some 0 \<and> g (2, 2) = Some 20 | _ \<Rightarrow> False)"
proof -
  have p: "truelyPassableAbsolute (open_board 10 2) 5 5
             (fst (generateTrueVisionPassableMap (open_board 10 2)))"
    by (simp add: truelyPassableAbsolute_def truelyPassableDelta_def
        generateTrueVisionPassableMap_def getPassableMap_def open_board_def Let_def)
  have h: "map_height (open_board 10 2) = 10"
    by (simp add: open_board_def)
  have a: "fst (findPath (open_board 10 2) (TargetList []) None None no_flags)
             = Some (Inl TypeError)"
    by (simp add: findPath_def Let_def no_flags_def case_prod_beta)
  have b: "fst (findPath (open_board 10 2) (OneTarget (5, 5)) None (Some (2, 17)) no_flags)
             = Some (Inl TypeError)"
    by (simp add: findPath_def Let_def no_flags_def p h case_prod_beta)
  show ?thesis
    using bfs_search unfolding bfs_findPath [symmetric] by (simp add: a b)
qed

end
